theory Spec2Isabelle
  imports Complex_Main "HOL-Library.AList"
begin

section \<open>The interval timeline of src/play/game/timeline.ts\<close>

text \<open>
  Times are JavaScript numbers holding milliseconds. The timeline engine only compares
  them, and the comparison of two finite doubles is the comparison of the reals they
  denote, so a time is a \<open>real\<close>. The audio layer also subtracts, adds and scales
  times; there the model computes with exact reals and leaves rounding out.
\<close>

subsection \<open>Data\<close>

record IDurable =
  startTimeMs :: real
  endTimeMs :: real

text \<open>\<open>build\<close> is the factory \<open>() => Instance\<close>; calling it is recorded in the trace.\<close>

record 'i TimelineElement = IDurable +
  build :: "unit \<Rightarrow> 'i"

text \<open>The field \<open>instance\<close> of the source is called \<open>inst\<close>: the former is reserved.\<close>

record 'i TimelineElementState = IDurable +
  inst :: 'i

text \<open>
  What an \<open>update\<close> call does to its collaborators, in order: a call of a descriptor's
  \<open>build\<close>, and the calls of the three hooks. A hook receives the instance and the
  time; the trace names the instance by the key under which it is (or was) active.
\<close>

datatype effect =
    Build int
  | CreateElement int real
  | UpdateElement int real
  | DestroyElement int real

text \<open>The only exception the engine could raise: reading a property of \<open>undefined\<close>.\<close>

datatype error = TypeError

text \<open>
  The options of the constructor. A hook is an opaque callback or absent; the model keeps
  whether it is present. \<open>opt_allowSkippingElements\<close> is \<open>None\<close> when the option is
  left out.
\<close>

record 'i TimelineOptions =
  opt_elements :: "'i TimelineElement list"
  opt_createElement :: bool
  opt_updateElement :: bool
  opt_destroyElement :: bool
  opt_allowSkippingElements :: "bool option"

text \<open>
  The engine. \<open>activeElements\<close> is a JavaScript \<open>Map\<close>: an association list in
  insertion order (the order in which the reconciliation loop visits it).
  \<open>lastTimeMs\<close> and \<open>nextElementIndex\<close> are declared without a value: \<open>None\<close> is
  \<open>undefined\<close>. The three hook fields say whether the hook is installed.
\<close>

record 'i Timeline =
  elements :: "'i TimelineElement list"
  activeElements :: "(int \<times> 'i TimelineElementState) list"
  lastTimeMs :: "real option"
  nextElementIndex :: "int option"
  createElement :: bool
  updateElement :: bool
  destroyElement :: bool
  allowSkippingElements :: bool

subsection \<open>Array reads and the search of the library\<close>

text \<open>\<open>arr[i]\<close>: the element, or \<open>undefined\<close> outside the array.\<close>

definition element_at :: "'a list \<Rightarrow> int \<Rightarrow> 'a option" where
  "element_at arr i = (if 0 \<le> i \<and> i < int (length arr) then Some (arr ! nat i) else None)"

text \<open>
  Modelled from the spec: \<open>BinarySearch.findIndex\<close> is imported from the package
  osu-classes and its body is not among the sources. The specification says of it that it
  "finds, over the sorted array, the first index" satisfying the predicate, and that when
  "no index satisfies the predicate" the caller's test \<open>found >= 0\<close> fails ("no index").
\<close>

definition findIndex :: "'a list \<Rightarrow> ('a \<Rightarrow> bool) \<Rightarrow> int" where
  "findIndex arr predicate =
     (if list_ex predicate arr
      then int (length (takeWhile (\<lambda>x. \<not> predicate x) arr))
      else - 1)"

subsection \<open>The constructor\<close>

text \<open>
  The constructor copies the descriptors, sorts the copy by \<open>startTimeMs\<close> (the sort of
  an array is stable, as \<open>sort_key\<close> is) and stores the options. It has no other
  statement: no branch of it raises.
\<close>

definition Timeline_constructor :: "'i TimelineOptions \<Rightarrow> error + 'i Timeline" where
  "Timeline_constructor options =
     Inr \<lparr> elements = sort_key startTimeMs (opt_elements options),
           activeElements = [],
           lastTimeMs = None,
           nextElementIndex = None,
           createElement = opt_createElement options,
           updateElement = opt_updateElement options,
           destroyElement = opt_destroyElement options,
           allowSkippingElements =
             (case opt_allowSkippingElements options of None \<Rightarrow> False | Some b \<Rightarrow> b) \<rparr>"

subsection \<open>The cursor\<close>

text \<open>
  A comparison with \<open>undefined\<close> is false, and \<open>nextElement?.endTimeMs\<close> of a
  missing element is \<open>undefined\<close>.
\<close>

definition setInitialElementIndex :: "real \<Rightarrow> bool \<Rightarrow> 'i Timeline \<Rightarrow> 'i Timeline" where
  "setInitialElementIndex timeMs forward tm =
     (let nextElement =
            (case nextElementIndex tm of None \<Rightarrow> None | Some i \<Rightarrow> element_at (elements tm) i);
          isSeekingBackwards =
            (case lastTimeMs tm of
               None \<Rightarrow> False
             | Some l \<Rightarrow> if forward then timeMs < l else timeMs > l);
          isSeekingForward =
            (case nextElement of
               None \<Rightarrow> False
             | Some e \<Rightarrow> if forward then timeMs \<ge> endTimeMs e else timeMs \<le> startTimeMs e)
      in if \<not> isSeekingBackwards \<and> \<not> isSeekingForward \<and> nextElement \<noteq> None then tm
         else
           let found = findIndex (elements tm)
                 (\<lambda>element. if forward then timeMs < endTimeMs element
                             else timeMs > startTimeMs element)
           in tm\<lparr>nextElementIndex :=
                    Some (if forward then (if found \<ge> 0 then found else 0) else found)\<rparr>)"

text \<open>
  \<open>this.elements[this.nextElementIndex].startTimeMs\<close> has no \<open>?.\<close>: it raises when the
  index is outside the array, which the test \<open>elementExists\<close> excludes on one side only.
\<close>

definition shouldAddNextElement :: "real \<Rightarrow> bool \<Rightarrow> 'i Timeline \<Rightarrow> error + bool" where
  "shouldAddNextElement timeMs forward tm =
     (case nextElementIndex tm of
        None \<Rightarrow> Inr False
      | Some i \<Rightarrow>
          let elementExists = (if forward then i < int (length (elements tm)) else i \<ge> 0)
          in if \<not> elementExists then Inr False
             else (case element_at (elements tm) i of
                     None \<Rightarrow> Inl TypeError
                   | Some e \<Rightarrow>
                       Inr (if forward then timeMs > startTimeMs e else timeMs < endTimeMs e)))"

definition setNextElementIndex :: "bool \<Rightarrow> 'i Timeline \<Rightarrow> 'i Timeline" where
  "setNextElementIndex forward tm =
     tm\<lparr>nextElementIndex :=
          map_option (\<lambda>i. i + (if forward then 1 else - 1)) (nextElementIndex tm)\<rparr>"

subsection \<open>The body of the scan loop\<close>

definition has_key :: "(int \<times> 'v) list \<Rightarrow> int \<Rightarrow> bool" where
  "has_key m k = (map_of m k \<noteq> None)"

definition addNextElement :: "real \<Rightarrow> 'i Timeline \<Rightarrow> error + ('i Timeline \<times> effect list)" where
  "addNextElement timeMs tm =
     (case nextElementIndex tm of
        None \<Rightarrow> Inl TypeError
      | Some i \<Rightarrow>
         (case element_at (elements tm) i of
            None \<Rightarrow> Inl TypeError
          | Some nextElement \<Rightarrow>
              let hasEnded = (timeMs \<ge> endTimeMs nextElement);
                  isActive = has_key (activeElements tm) i
              in if \<not> allowSkippingElements tm \<or> (\<not> hasEnded \<and> \<not> isActive) then
                   let nextElementState =
                         \<lparr> startTimeMs = startTimeMs nextElement,
                           endTimeMs = endTimeMs nextElement,
                           inst = build nextElement () \<rparr>
                   in Inr (tm\<lparr>activeElements :=
                                 AList.update i nextElementState (activeElements tm)\<rparr>,
                           Build i # (if createElement tm then [CreateElement i timeMs] else []))
                 else Inr (tm, [])))"

subsection \<open>The scan loop\<close>

text \<open>The distance of the cursor from the end of the array it walks towards.\<close>

definition scan_measure :: "bool \<Rightarrow> 'i Timeline \<Rightarrow> nat" where
  "scan_measure forward tm =
     (case nextElementIndex tm of
        None \<Rightarrow> 0
      | Some i \<Rightarrow> if forward then nat (int (length (elements tm)) - i) else nat (i + 1))"

text \<open>
  The \<open>for\<close> loop of \<open>update\<close> after its initialiser: test, body, step. It returns the
  state it leaves and the effects of its bodies in order.
\<close>

function scan :: "real \<Rightarrow> bool \<Rightarrow> 'i Timeline \<Rightarrow> error + ('i Timeline \<times> effect list)" where
  "scan timeMs forward tm =
     (case shouldAddNextElement timeMs forward tm of
        Inl e \<Rightarrow> Inl e
      | Inr False \<Rightarrow> Inr (tm, [])
      | Inr True \<Rightarrow>
          (case addNextElement timeMs tm of
             Inl e \<Rightarrow> Inl e
           | Inr (tl1, ev1) \<Rightarrow>
               (case scan timeMs forward (setNextElementIndex forward tl1) of
                  Inl e \<Rightarrow> Inl e
                | Inr (tl2, ev2) \<Rightarrow> Inr (tl2, ev1 @ ev2))))"
  by pat_completeness auto
termination
proof (relation "measure (\<lambda>(timeMs, forward, tm). scan_measure forward tm)", goal_cases)
  case 1
  show ?case by simp
next
  case (2 timeMs forward tm b x tl1 ev1)
  then have should: "shouldAddNextElement timeMs forward tm = Inr True"
    and added: "addNextElement timeMs tm = Inr (tl1, ev1)"
    by simp_all
  from should obtain i where i:
    "nextElementIndex tm = Some i" "0 \<le> i" "i < int (length (elements tm))"
    by (auto simp: shouldAddNextElement_def element_at_def Let_def
        split: option.splits if_splits)
  from added i(1) have "nextElementIndex tl1 = Some i" "elements tl1 = elements tm"
    by (auto simp: addNextElement_def Let_def split: option.splits if_splits)
  with i show ?case
    by (simp add: scan_measure_def setNextElementIndex_def)
qed

subsection \<open>Reconciliation of the active set\<close>

text \<open>
  The second loop of \<open>update\<close> visits every entry of the map once, in insertion order;
  an entry whose window does not contain the time is destroyed and deleted, the others
  are ticked. It returns the entries that stay and the hook calls.
\<close>

fun reconcile ::
  "bool \<Rightarrow> bool \<Rightarrow> real \<Rightarrow> (int \<times> 'i TimelineElementState) list
     \<Rightarrow> (int \<times> 'i TimelineElementState) list \<times> effect list" where
  "reconcile upd des timeMs [] = ([], [])"
| "reconcile upd des timeMs ((index, element) # rest) =
     (let (kept, ev) = reconcile upd des timeMs rest
      in if timeMs \<ge> startTimeMs element \<and> timeMs < endTimeMs element
         then ((index, element) # kept, (if upd then [UpdateElement index timeMs] else []) @ ev)
         else (kept, (if des then [DestroyElement index timeMs] else []) @ ev))"

subsection \<open>update\<close>

definition Timeline_update ::
  "real \<Rightarrow> bool \<Rightarrow> 'i Timeline \<Rightarrow> error + ('i Timeline \<times> effect list)" where
  "Timeline_update timeMs forward tm =
     (let tl0 = (case nextElementIndex tm of
                   None \<Rightarrow> tm\<lparr>nextElementIndex :=
                                Some (if forward then 0 else int (length (elements tm)) - 1)\<rparr>
                 | Some i \<Rightarrow> tm)
      in case scan timeMs forward (setInitialElementIndex timeMs forward tl0) of
           Inl e \<Rightarrow> Inl e
         | Inr (tl1, ev1) \<Rightarrow>
             let (kept, ev2) =
                   reconcile (updateElement tl1) (destroyElement tl1) timeMs (activeElements tl1)
             in Inr (tl1\<lparr>activeElements := kept, lastTimeMs := Some timeMs\<rparr>, ev1 @ ev2))"

text \<open>A run of \<open>update\<close> calls: the traces of the calls, one per call, and the last state.\<close>

fun Timeline_updates ::
  "(real \<times> bool) list \<Rightarrow> 'i Timeline \<Rightarrow> error + ('i Timeline \<times> effect list list)" where
  "Timeline_updates [] tm = Inr (tm, [])"
| "Timeline_updates ((timeMs, forward) # calls) tm =
     (case Timeline_update timeMs forward tm of
        Inl e \<Rightarrow> Inl e
      | Inr (tl1, ev) \<Rightarrow>
          (case Timeline_updates calls tl1 of
             Inl e \<Rightarrow> Inl e
           | Inr (tl2, evs) \<Rightarrow> Inr (tl2, ev # evs)))"

subsection \<open>The engine over any search\<close>

text \<open>
  \<open>setInitialElementIndex\<close> is the one function of the engine that calls the library:
  \<open>BinarySearch.findIndex(this.elements, predicate)\<close>. The three definitions below are
  \<open>setInitialElementIndex\<close>, \<open>update\<close> and the runs of \<open>update\<close> calls once more, line
  for line, with the function called there as the parameter \<open>search\<close>: the engine,
  whatever the library computes.
\<close>

definition setInitialElementIndex_with ::
  "('i TimelineElement list \<Rightarrow> ('i TimelineElement \<Rightarrow> bool) \<Rightarrow> int)
     \<Rightarrow> real \<Rightarrow> bool \<Rightarrow> 'i Timeline \<Rightarrow> 'i Timeline" where
  "setInitialElementIndex_with search timeMs forward tm =
     (let nextElement =
            (case nextElementIndex tm of None \<Rightarrow> None | Some i \<Rightarrow> element_at (elements tm) i);
          isSeekingBackwards =
            (case lastTimeMs tm of
               None \<Rightarrow> False
             | Some l \<Rightarrow> if forward then timeMs < l else timeMs > l);
          isSeekingForward =
            (case nextElement of
               None \<Rightarrow> False
             | Some e \<Rightarrow> if forward then timeMs \<ge> endTimeMs e else timeMs \<le> startTimeMs e)
      in if \<not> isSeekingBackwards \<and> \<not> isSeekingForward \<and> nextElement \<noteq> None then tm
         else
           let found = search (elements tm)
                 (\<lambda>element. if forward then timeMs < endTimeMs element
                             else timeMs > startTimeMs element)
           in tm\<lparr>nextElementIndex :=
                    Some (if forward then (if found \<ge> 0 then found else 0) else found)\<rparr>)"

definition Timeline_update_with ::
  "('i TimelineElement list \<Rightarrow> ('i TimelineElement \<Rightarrow> bool) \<Rightarrow> int)
     \<Rightarrow> real \<Rightarrow> bool \<Rightarrow> 'i Timeline \<Rightarrow> error + ('i Timeline \<times> effect list)" where
  "Timeline_update_with search timeMs forward tm =
     (let tl0 = (case nextElementIndex tm of
                   None \<Rightarrow> tm\<lparr>nextElementIndex :=
                                Some (if forward then 0 else int (length (elements tm)) - 1)\<rparr>
                 | Some i \<Rightarrow> tm)
      in case scan timeMs forward (setInitialElementIndex_with search timeMs forward tl0) of
           Inl e \<Rightarrow> Inl e
         | Inr (tl1, ev1) \<Rightarrow>
             let (kept, ev2) =
                   reconcile (updateElement tl1) (destroyElement tl1) timeMs (activeElements tl1)
             in Inr (tl1\<lparr>activeElements := kept, lastTimeMs := Some timeMs\<rparr>, ev1 @ ev2))"

fun Timeline_updates_with ::
  "('i TimelineElement list \<Rightarrow> ('i TimelineElement \<Rightarrow> bool) \<Rightarrow> int)
     \<Rightarrow> (real \<times> bool) list \<Rightarrow> 'i Timeline \<Rightarrow> error + ('i Timeline \<times> effect list list)" where
  "Timeline_updates_with search [] tm = Inr (tm, [])"
| "Timeline_updates_with search ((timeMs, forward) # calls) tm =
     (case Timeline_update_with search timeMs forward tm of
        Inl e \<Rightarrow> Inl e
      | Inr (tl1, ev) \<Rightarrow>
          (case Timeline_updates_with search calls tl1 of
             Inl e \<Rightarrow> Inl e
           | Inr (tl2, evs) \<Rightarrow> Inr (tl2, ev # evs)))"

section \<open>The audio layer\<close>

text \<open>
  \<open>StoryboardSample\<close> and \<open>Howl\<close> are types of the packages osu-classes and howler.
  Of a sample the layer reads \<open>startTime\<close> only. Of a sound handle it reads, for the
  voice \<open>soundId\<close>, the duration in seconds and whether the voice is playing; the model
  keeps these two values of the voice in the record \<open>Howl\<close> and takes \<open>seek\<close> to leave
  \<open>playing\<close> as it is and \<open>stop\<close> to clear it.
\<close>

record StoryboardSample =
  startTime :: real

record Howl =
  duration :: real
  playing :: bool

record AudioTimelineInstance =
  sample :: StoryboardSample
  sampleVolume :: real
  sound :: "Howl option"
  soundId :: "nat option"

text \<open>The calls \<open>seek\<close> makes on a sound handle: \<open>sound.seek(seconds, id)\<close> and \<open>sound.stop(id)\<close>.\<close>

datatype howl_call =
    HowlSeek real "nat option"
  | HowlStop "nat option"

text \<open>The field \<open>lastTimeMs\<close> of the audio layer is \<open>audio_lastTimeMs\<close>; it starts at 0.\<close>

record AudioObjectTimeline =
  timeline :: "AudioTimelineInstance Timeline"
  audio_lastTimeMs :: real

text \<open>The callback of \<open>forEach\<close> in \<open>seek\<close>, for one active instance.\<close>

definition seekElement ::
  "real \<Rightarrow> real \<Rightarrow> AudioTimelineInstance \<Rightarrow> AudioTimelineInstance \<times> howl_call list" where
  "seekElement timeMs lastMs instance =
     (case sound instance of
        None \<Rightarrow> (instance, [])
      | Some howl \<Rightarrow>
          let timeRelativeMs = timeMs - startTime (sample instance);
              seekOffsetMs = timeMs - lastMs;
              seekTimeMs = timeRelativeMs + seekOffsetMs;
              sampleDurationMs = duration howl * 1000;
              sampleEndTimeMs = startTime (sample instance) + sampleDurationMs;
              unconditional = [HowlSeek (seekTimeMs / 1000) (soundId instance)]
          in if seekTimeMs < 0 \<or> seekTimeMs \<ge> sampleEndTimeMs then
               (if playing howl
                then (instance\<lparr>sound := Some (howl\<lparr>playing := False\<rparr>)\<rparr>,
                      unconditional @ [HowlStop (soundId instance)])
                else (instance, unconditional))
             else if \<bar>timeMs - lastMs\<bar> > 20 then
               (instance, unconditional @ [HowlSeek (seekTimeMs / 1000) (soundId instance)])
             else (instance, unconditional))"

fun seekElements ::
  "real \<Rightarrow> real \<Rightarrow> (int \<times> AudioTimelineInstance TimelineElementState) list
     \<Rightarrow> (int \<times> AudioTimelineInstance TimelineElementState) list \<times> (int \<times> howl_call) list" where
  "seekElements timeMs lastMs [] = ([], [])"
| "seekElements timeMs lastMs ((index, element) # rest) =
     (let (instance', calls) = seekElement timeMs lastMs (inst element);
          (rest', calls') = seekElements timeMs lastMs rest
      in ((index, element\<lparr>inst := instance'\<rparr>) # rest', map (Pair index) calls @ calls'))"

definition AudioObjectTimeline_constructor ::
  "AudioTimelineInstance TimelineElement list \<Rightarrow> error + AudioObjectTimeline" where
  "AudioObjectTimeline_constructor els =
     (case Timeline_constructor
             \<lparr> opt_elements = els, opt_createElement = False, opt_updateElement = False,
               opt_destroyElement = True, opt_allowSkippingElements = Some True \<rparr> of
        Inl e \<Rightarrow> Inl e
      | Inr tm \<Rightarrow> Inr \<lparr> timeline = tm, audio_lastTimeMs = 0 \<rparr>)"

definition AudioObjectTimeline_update ::
  "real \<Rightarrow> AudioObjectTimeline \<Rightarrow> error + (AudioObjectTimeline \<times> effect list)" where
  "AudioObjectTimeline_update timeMs a =
     (case Timeline_update timeMs True (timeline a) of
        Inl e \<Rightarrow> Inl e
      | Inr (tm, ev) \<Rightarrow> Inr (\<lparr> timeline = tm, audio_lastTimeMs = timeMs \<rparr>, ev))"

definition AudioObjectTimeline_seek ::
  "real \<Rightarrow> AudioObjectTimeline \<Rightarrow> AudioObjectTimeline \<times> (int \<times> howl_call) list" where
  "AudioObjectTimeline_seek timeMs a =
     (let (active', calls) =
            seekElements timeMs (audio_lastTimeMs a) (activeElements (timeline a))
      in (a\<lparr>timeline := (timeline a)\<lparr>activeElements := active'\<rparr>\<rparr>, calls))"

section \<open>Notions used in the statements and proofs\<close>

text \<open>The first statement of \<open>update\<close>: \<open>this.nextElementIndex ??= ...\<close>.\<close>

definition withCursor :: "bool \<Rightarrow> 'i Timeline \<Rightarrow> 'i Timeline" where
  "withCursor forward tm =
     (case nextElementIndex tm of
        None \<Rightarrow> tm\<lparr>nextElementIndex :=
                     Some (if forward then 0 else int (length (elements tm)) - 1)\<rparr>
      | Some i \<Rightarrow> tm)"

text \<open>The result of the loop body on the descriptor \<open>e\<close> found at the cursor \<open>i\<close>.\<close>

definition added :: "real \<Rightarrow> int \<Rightarrow> 'i TimelineElement \<Rightarrow> 'i Timeline \<Rightarrow> 'i Timeline \<times> effect list" where
  "added t i e tm =
     (if \<not> allowSkippingElements tm \<or> (t < endTimeMs e \<and> \<not> has_key (activeElements tm) i)
      then (tm\<lparr>activeElements := AList.update i
                \<lparr> startTimeMs = startTimeMs e, endTimeMs = endTimeMs e, inst = build e () \<rparr>
                (activeElements tm)\<rparr>,
            Build i # (if createElement tm then [CreateElement i t] else []))
      else (tm, []))"

text \<open>
  The condition under which \<open>setInitialElementIndex\<close> does not return early (the cursor is
  stale), the predicate it then hands to the search, and the index the search yields.
\<close>

definition cursorIsStale :: "real \<Rightarrow> bool \<Rightarrow> 'i Timeline \<Rightarrow> bool" where
  "cursorIsStale timeMs forward tm =
     (case nextElementIndex tm of
        None \<Rightarrow> True
      | Some i \<Rightarrow>
         (case element_at (elements tm) i of
            None \<Rightarrow> True
          | Some e \<Rightarrow>
              (case lastTimeMs tm of
                 None \<Rightarrow> False
               | Some l \<Rightarrow> if forward then timeMs < l else timeMs > l)
              \<or> (if forward then timeMs \<ge> endTimeMs e else timeMs \<le> startTimeMs e)))"

definition searchPredicate :: "real \<Rightarrow> bool \<Rightarrow> 'i TimelineElement \<Rightarrow> bool" where
  "searchPredicate timeMs forward element =
     (if forward then timeMs < endTimeMs element else timeMs > startTimeMs element)"

definition searchedIndex :: "real \<Rightarrow> bool \<Rightarrow> 'i Timeline \<Rightarrow> int" where
  "searchedIndex timeMs forward tm = findIndex (elements tm) (searchPredicate timeMs forward)"

text \<open>The containment test of the reconciliation loop.\<close>

definition in_window :: "real \<Rightarrow> ('a IDurable_scheme) \<Rightarrow> bool" where
  "in_window timeMs d = (startTimeMs d \<le> timeMs \<and> timeMs < endTimeMs d)"

text \<open>
  Every active entry sits under the index of a descriptor and carries that descriptor's
  window, and no key occurs twice (the active set is a \<open>Map\<close>).
\<close>

definition active_consistent :: "'i Timeline \<Rightarrow> bool" where
  "active_consistent tm =
     (distinct (map fst (activeElements tm)) \<and>
      list_all (\<lambda>(k, st). case element_at (elements tm) k of
                   None \<Rightarrow> False
                 | Some e \<Rightarrow> startTimeMs st = startTimeMs e \<and> endTimeMs st = endTimeMs e)
        (activeElements tm))"

text \<open>An active key belongs to a descriptor whose window is not empty.\<close>

definition active_nonempty :: "'i Timeline \<Rightarrow> bool" where
  "active_nonempty tm =
     (\<forall>k. has_key (activeElements tm) k \<longrightarrow>
        (\<exists>e. element_at (elements tm) k = Some e \<and> startTimeMs e < endTimeMs e))"

text \<open>
  The indices a scan visits when it starts with the cursor at \<open>c\<close> and leaves it at
  \<open>m\<close>.
\<close>

definition visited :: "bool \<Rightarrow> int \<Rightarrow> int \<Rightarrow> int \<Rightarrow> bool" where
  "visited forward c m k = (if forward then c \<le> k \<and> k < m else m < k \<and> k \<le> c)"

text \<open>Whether the loop body builds the descriptor at \<open>k\<close> when the scan visits it.\<close>

definition builds :: "real \<Rightarrow> 'i Timeline \<Rightarrow> int \<Rightarrow> bool" where
  "builds timeMs tm k =
     (\<not> allowSkippingElements tm
      \<or> ((\<exists>e. element_at (elements tm) k = Some e \<and> timeMs < endTimeMs e)
         \<and> \<not> has_key (activeElements tm) k))"

text \<open>Whether the time lies in the half-open window of the descriptor at \<open>k\<close>.\<close>

definition inside :: "real \<Rightarrow> 'i Timeline \<Rightarrow> int \<Rightarrow> bool" where
  "inside timeMs tm k = (\<exists>e. element_at (elements tm) k = Some e \<and> in_window timeMs e)"

text \<open>Whether the time lies strictly inside the window of the descriptor at \<open>k\<close>.\<close>

definition strictly_inside :: "real \<Rightarrow> 'i Timeline \<Rightarrow> int \<Rightarrow> bool" where
  "strictly_inside timeMs tm k =
     (\<exists>e. element_at (elements tm) k = Some e \<and> startTimeMs e < timeMs \<and> timeMs < endTimeMs e)"

text \<open>
  What forward playback maintains between calls. The descriptors are sorted by start
  time. Before the first call the cursor is undefined. After a call at time \<open>tp\<close> the
  cursor is not negative, every descriptor before it has ended or has started before
  \<open>tp\<close>, and every descriptor with \<open>tp\<close> strictly inside its window is active.
\<close>

definition forward_inv :: "'i Timeline \<Rightarrow> bool" where
  "forward_inv tm =
     (sorted (map startTimeMs (elements tm)) \<and> active_consistent tm \<and>
      (case lastTimeMs tm of
         None \<Rightarrow> nextElementIndex tm = None
       | Some tp \<Rightarrow>
           (\<exists>c. nextElementIndex tm = Some c \<and> 0 \<le> c \<and>
              (\<forall>j e. j < c \<and> element_at (elements tm) j = Some e \<longrightarrow>
                 endTimeMs e \<le> tp \<or> startTimeMs e < tp)) \<and>
           (\<forall>k e. element_at (elements tm) k = Some e \<and> startTimeMs e < tp \<and> tp < endTimeMs e
              \<longrightarrow> has_key (activeElements tm) k)))"

text \<open>
  What forward playback with non-decreasing times maintains in addition: an active
  descriptor has the last time strictly inside its window.
\<close>

definition forward_exact :: "'i Timeline \<Rightarrow> bool" where
  "forward_exact tm =
     (case lastTimeMs tm of
        None \<Rightarrow> activeElements tm = []
      | Some tp \<Rightarrow> (\<forall>k. has_key (activeElements tm) k \<longrightarrow> strictly_inside tp tm k))"




section \<open>Concrete inputs\<close>

text \<open>
  The descriptors of the specification's scenario, \<open>A [0, 1000)\<close>, \<open>B [500, 1500)\<close>
  and \<open>C [2000, 3000)\<close>, with all three hooks installed.
\<close>

definition descriptor :: "real \<Rightarrow> real \<Rightarrow> string \<Rightarrow> string TimelineElement" where
  "descriptor s e name = \<lparr> startTimeMs = s, endTimeMs = e, build = (\<lambda>_. name) \<rparr>"


definition timeline_of :: "string TimelineElement list \<Rightarrow> bool \<Rightarrow> string Timeline" where
  "timeline_of els skipping =
     \<lparr> elements = els, activeElements = [], lastTimeMs = None, nextElementIndex = None,
       createElement = True, updateElement = True, destroyElement = True,
       allowSkippingElements = skipping \<rparr>"

definition scenario_timeline :: "string Timeline" where
  "scenario_timeline =
     timeline_of [descriptor 0 1000 ''A'', descriptor 500 1500 ''B'',
                  descriptor 2000 3000 ''C''] True"

text \<open>Options with a descriptor whose window ends before it starts, skipping left out.\<close>

definition malformed_options :: "string TimelineOptions" where
  "malformed_options =
     \<lparr> opt_elements = [descriptor 900 400 ''M'', descriptor 0 1000 ''A''],
       opt_createElement = True, opt_updateElement = True, opt_destroyElement = True,
       opt_allowSkippingElements = None \<rparr>"

text \<open>
  A long descriptor \<open>X [0, 10000)\<close> overlapping two short ones, \<open>Y [100, 200)\<close> and
  \<open>Z [300, 400)\<close>.
\<close>

definition overlap_elements :: "string TimelineElement list" where
  "overlap_elements =
     [descriptor 0 10000 ''X'', descriptor 100 200 ''Y'', descriptor 300 400 ''Z'']"

definition overlap_timeline :: "string Timeline" where
  "overlap_timeline = timeline_of overlap_elements True"

text \<open>The overlapping descriptors after \<open>update(250)\<close>: \<open>X\<close> is active, the cursor is at \<open>Z\<close>.\<close>

definition overlap_timeline_250 :: "string Timeline" where
  "overlap_timeline_250 =
     overlap_timeline\<lparr>
       activeElements := [(0, \<lparr> startTimeMs = 0, endTimeMs = 10000, inst = ''X'' \<rparr>)],
       lastTimeMs := Some 250, nextElementIndex := Some 2\<rparr>"

text \<open>Descriptors \<open>X [0, 1000)\<close> and \<open>Z [100, 100)\<close>, the second of zero duration.\<close>

definition zero_elements :: "string TimelineElement list" where
  "zero_elements = [descriptor 0 1000 ''X'', descriptor 100 100 ''Z'']"

text \<open>
  A playing voice for a sample that starts at \<open>start\<close> ms and lasts \<open>dur\<close> seconds, and
  the descriptor that builds it, active from the sample's start to its natural end.
\<close>

definition voice_of :: "real \<Rightarrow> real \<Rightarrow> AudioTimelineInstance" where
  "voice_of start dur =
     \<lparr> sample = \<lparr> startTime = start \<rparr>, sampleVolume = 1,
       sound = Some \<lparr> duration = dur, playing = True \<rparr>, soundId = Some 7 \<rparr>"

definition sample_descriptor :: "real \<Rightarrow> real \<Rightarrow> AudioTimelineInstance TimelineElement" where
  "sample_descriptor start dur =
     \<lparr> startTimeMs = start, endTimeMs = start + dur * 1000, build = (\<lambda>_. voice_of start dur) \<rparr>"

section \<open>Lemmas about the engine\<close>

declare scan.simps [simp del]

lemma findIndex_range: "- 1 \<le> findIndex arr P \<and> findIndex arr P < int (length arr)"
proof (cases "list_ex P arr")
  case True
  then have "takeWhile (\<lambda>x. \<not> P x) arr \<noteq> arr"
    by (auto simp: list_ex_iff takeWhile_eq_all_conv)
  moreover have "length (takeWhile (\<lambda>x. \<not> P x) arr) \<le> length arr"
    by (rule length_takeWhile_le)
  ultimately have "length (takeWhile (\<lambda>x. \<not> P x) arr) < length arr"
    by (metis le_neq_implies_less takeWhile_eq_take take_all_iff order_refl)
  with True show ?thesis by (simp add: findIndex_def)
next
  case False
  then show ?thesis by (simp add: findIndex_def)
qed

lemma findIndex_found:
  assumes "0 \<le> findIndex arr P"
  shows "list_ex P arr" and "P (arr ! nat (findIndex arr P))"
    and "\<And>j. j < nat (findIndex arr P) \<Longrightarrow> \<not> P (arr ! j)"
proof -
  show ex: "list_ex P arr" using assms by (auto simp: findIndex_def split: if_splits)
  then have eq: "findIndex arr P = int (length (takeWhile (\<lambda>x. \<not> P x) arr))"
    by (simp add: findIndex_def)
  have lt: "length (takeWhile (\<lambda>x. \<not> P x) arr) < length arr"
    using findIndex_range [of arr P] eq by simp
  from nth_length_takeWhile [OF lt] show "P (arr ! nat (findIndex arr P))"
    by (simp add: eq)
  fix j assume "j < nat (findIndex arr P)"
  then have j: "j < length (takeWhile (\<lambda>x. \<not> P x) arr)" by (simp add: eq)
  then have "takeWhile (\<lambda>x. \<not> P x) arr ! j = arr ! j" by (rule takeWhile_nth)
  moreover have "takeWhile (\<lambda>x. \<not> P x) arr ! j \<in> set (takeWhile (\<lambda>x. \<not> P x) arr)"
    using j by simp
  ultimately show "\<not> P (arr ! j)" by (metis set_takeWhileD)
qed

lemma scan_stop:
  "shouldAddNextElement t f tm = Inr False \<Longrightarrow> scan t f tm = Inr (tm, [])"
  by (simp add: scan.simps [of t f tm])

lemma scan_step:
  "shouldAddNextElement t f tm = Inr True \<Longrightarrow> addNextElement t tm = Inr (tl1, ev1) \<Longrightarrow>
   scan t f tm = (case scan t f (setNextElementIndex f tl1) of
                    Inl e \<Rightarrow> Inl e | Inr (tl2, ev2) \<Rightarrow> Inr (tl2, ev1 @ ev2))"
  by (simp add: scan.simps [of t f tm])

lemma scan_induct [consumes 1, case_names stop step]:
  assumes "scan t f tm = Inr (tm', ev)"
    and "\<And>tm. shouldAddNextElement t f tm = Inr False \<Longrightarrow> P tm tm []"
    and "\<And>tm tl1 ev1 tl2 ev2.
        shouldAddNextElement t f tm = Inr True \<Longrightarrow>
        addNextElement t tm = Inr (tl1, ev1) \<Longrightarrow>
        scan t f (setNextElementIndex f tl1) = Inr (tl2, ev2) \<Longrightarrow>
        P (setNextElementIndex f tl1) tl2 ev2 \<Longrightarrow> P tm tl2 (ev1 @ ev2)"
  shows "P tm tm' ev"
  using assms
proof (induction t f tm arbitrary: tm' ev rule: scan.induct)
  case (1 t f tm)
  note run = "1.prems"(1) and stop = "1.prems"(2) and step = "1.prems"(3)
  show ?case
  proof (cases "shouldAddNextElement t f tm")
    case (Inl e)
    with run show ?thesis by (simp add: scan.simps [of t f tm])
  next
    case (Inr b)
    show ?thesis
    proof (cases b)
      case False
      with Inr have s: "shouldAddNextElement t f tm = Inr False" by simp
      with run have "tm' = tm" "ev = []" by (simp_all add: scan_stop)
      with stop [OF s] show ?thesis by simp
    next
      case True
      with Inr have s: "shouldAddNextElement t f tm = Inr True" by simp
      show ?thesis
      proof (cases "addNextElement t tm")
        case (Inl e)
        with s run show ?thesis by (simp add: scan.simps [of t f tm])
      next
        case (Inr x)
        obtain tl1 ev1 where x: "x = (tl1, ev1)" by (cases x)
        note a = Inr [unfolded x]
        from run obtain tl2 ev2 where
          r: "scan t f (setNextElementIndex f tl1) = Inr (tl2, ev2)"
          and res: "tm' = tl2" "ev = ev1 @ ev2"
          by (auto simp: scan_step [OF s a] split: sum.splits)
        have bt: "b = True" using True by simp
        have "P (setNextElementIndex f tl1) tl2 ev2"
          by (rule "1.IH" [OF \<open>shouldAddNextElement t f tm = Inr b\<close> bt Inr x [symmetric] r stop step])
        from step [OF s a r this] res show ?thesis by simp
      qed
    qed
  qed
qed

lemma has_key_update [simp]: "has_key (AList.update i v m) k \<longleftrightarrow> k = i \<or> has_key m k"
  by (simp add: has_key_def update_conv)

lemma has_key_Nil [simp]: "\<not> has_key [] k"
  by (simp add: has_key_def)

lemma has_key_iff: "has_key m k \<longleftrightarrow> k \<in> fst ` set m"
  by (simp add: has_key_def map_of_eq_None_iff)

lemma element_at_Some:
  "element_at arr i = Some e \<longleftrightarrow> 0 \<le> i \<and> i < int (length arr) \<and> arr ! nat i = e"
  by (auto simp: element_at_def)

lemma shouldAddNextElement_TrueD:
  assumes "shouldAddNextElement t f tm = Inr True"
  obtains i e where "nextElementIndex tm = Some i" "element_at (elements tm) i = Some e"
    "if f then startTimeMs e < t else t < endTimeMs e"
  using assms
  by (auto simp: shouldAddNextElement_def Let_def split: option.splits if_splits)

lemma shouldAddNextElement_FalseD:
  assumes "shouldAddNextElement t f tm = Inr False" "nextElementIndex tm = Some i"
    "element_at (elements tm) i = Some e"
  shows "if f then t \<le> startTimeMs e else endTimeMs e \<le> t"
  using assms
  by (auto simp: shouldAddNextElement_def Let_def element_at_Some
      split: option.splits if_splits)

lemma addNextElement_eq:
  "nextElementIndex tm = Some i \<Longrightarrow> element_at (elements tm) i = Some e \<Longrightarrow>
   addNextElement t tm = Inr (added t i e tm)"
  by (simp add: addNextElement_def added_def Let_def not_le)

lemma addNextElement_InrD:
  assumes "addNextElement t tm = Inr r"
  obtains i e where "nextElementIndex tm = Some i" "element_at (elements tm) i = Some e"
    "r = added t i e tm"
proof (cases "nextElementIndex tm")
  case None
  with assms show ?thesis by (simp add: addNextElement_def)
next
  case (Some i)
  show ?thesis
  proof (cases "element_at (elements tm) i")
    case None
    with Some assms show ?thesis by (simp add: addNextElement_def)
  next
    case e: (Some e)
    from assms addNextElement_eq [OF Some e] have "r = added t i e tm" by simp
    with Some e show ?thesis by (rule that)
  qed
qed

lemma added_fields [simp]:
  "elements (fst (added t i e tm)) = elements tm"
  "nextElementIndex (fst (added t i e tm)) = nextElementIndex tm"
  "lastTimeMs (fst (added t i e tm)) = lastTimeMs tm"
  "createElement (fst (added t i e tm)) = createElement tm"
  "updateElement (fst (added t i e tm)) = updateElement tm"
  "destroyElement (fst (added t i e tm)) = destroyElement tm"
  "allowSkippingElements (fst (added t i e tm)) = allowSkippingElements tm"
  by (simp_all add: added_def)

lemma addNextElement_fields:
  assumes "addNextElement t tm = Inr (tl1, ev1)"
  shows "elements tl1 = elements tm" "nextElementIndex tl1 = nextElementIndex tm"
    "lastTimeMs tl1 = lastTimeMs tm" "createElement tl1 = createElement tm"
    "updateElement tl1 = updateElement tm" "destroyElement tl1 = destroyElement tm"
    "allowSkippingElements tl1 = allowSkippingElements tm"
proof -
  from assms obtain i e where "(tl1, ev1) = added t i e tm"
    by (rule addNextElement_InrD)
  then have "tl1 = fst (added t i e tm)" by (metis fst_conv)
  then show "elements tl1 = elements tm" "nextElementIndex tl1 = nextElementIndex tm"
    "lastTimeMs tl1 = lastTimeMs tm" "createElement tl1 = createElement tm"
    "updateElement tl1 = updateElement tm" "destroyElement tl1 = destroyElement tm"
    "allowSkippingElements tl1 = allowSkippingElements tm"
    by simp_all
qed

lemma setNextElementIndex_fields [simp]:
  "elements (setNextElementIndex f tm) = elements tm"
  "activeElements (setNextElementIndex f tm) = activeElements tm"
  "lastTimeMs (setNextElementIndex f tm) = lastTimeMs tm"
  "createElement (setNextElementIndex f tm) = createElement tm"
  "updateElement (setNextElementIndex f tm) = updateElement tm"
  "destroyElement (setNextElementIndex f tm) = destroyElement tm"
  "allowSkippingElements (setNextElementIndex f tm) = allowSkippingElements tm"
  "nextElementIndex (setNextElementIndex f tm)
     = map_option (\<lambda>i. i + (if f then 1 else - 1)) (nextElementIndex tm)"
  by (simp_all add: setNextElementIndex_def)

lemma scan_fields:
  assumes "scan t f tm = Inr (tm', ev)"
  shows "elements tm' = elements tm \<and> lastTimeMs tm' = lastTimeMs tm
     \<and> createElement tm' = createElement tm \<and> updateElement tm' = updateElement tm
     \<and> destroyElement tm' = destroyElement tm
     \<and> allowSkippingElements tm' = allowSkippingElements tm"
  using assms
proof (induction rule: scan_induct)
  case (stop tm)
  show ?case by simp
next
  case (step tm tl1 ev1 tl2 ev2)
  with addNextElement_fields [OF step(2)] show ?case by simp
qed

text \<open>The scan never raises when the cursor starts on the side the loop test leaves open.\<close>

lemma scan_total:
  assumes "nextElementIndex tm = Some i"
    and "if f then 0 \<le> i else i < int (length (elements tm))"
  shows "\<exists>r. scan t f tm = Inr r"
  using assms
proof (induction t f tm arbitrary: i rule: scan.induct)
  case (1 t f tm)
  have "\<exists>b. shouldAddNextElement t f tm = Inr b"
  proof (cases "if f then i < int (length (elements tm)) else 0 \<le> i")
    case False
    then show ?thesis
      using "1.prems"(1) by (auto simp: shouldAddNextElement_def Let_def)
  next
    case True
    with "1.prems"(2) have "0 \<le> i \<and> i < int (length (elements tm))"
      by (simp split: if_splits)
    then show ?thesis
      using "1.prems"(1) True by (simp add: shouldAddNextElement_def Let_def element_at_def)
  qed
  then obtain b where s: "shouldAddNextElement t f tm = Inr b" by blast
  show ?case
  proof (cases b)
    case False
    with s show ?thesis by (simp add: scan_stop)
  next
    case True
    with s have s': "shouldAddNextElement t f tm = Inr True" by simp
    then obtain e where e: "element_at (elements tm) i = Some e"
      using "1.prems"(1) by (auto elim!: shouldAddNextElement_TrueD)
    have "\<exists>x. addNextElement t tm = Inr x"
      using addNextElement_eq [OF "1.prems"(1) e] by simp
    then obtain x where a: "addNextElement t tm = Inr x" by blast
    obtain tl1 ev1 where x: "x = (tl1, ev1)" by (cases x)
    have f1: "nextElementIndex tl1 = Some i" "elements tl1 = elements tm"
      using addNextElement_fields [OF a [unfolded x]] "1.prems"(1) by simp_all
    have bt: "b = True" using True by simp
    have "\<exists>r. scan t f (setNextElementIndex f tl1) = Inr r"
    proof (rule "1.IH" [OF s bt a x [symmetric]])
      show "nextElementIndex (setNextElementIndex f tl1) = Some (i + (if f then 1 else - 1))"
        using f1 by simp
      show "if f then 0 \<le> i + (if f then 1 else - 1)
            else i + (if f then 1 else - 1) < int (length (elements (setNextElementIndex f tl1)))"
        using e f1 by (auto simp: element_at_Some)
    qed
    then show ?thesis
      by (auto simp: scan_step [OF s' a [unfolded x]] split: sum.splits)
  qed
qed

lemma setInitialElementIndex_eq:
  "setInitialElementIndex t f tm =
     (if cursorIsStale t f tm
      then tm\<lparr>nextElementIndex :=
              Some (if f then (if searchedIndex t f tm \<ge> 0 then searchedIndex t f tm else 0)
                    else searchedIndex t f tm)\<rparr>
      else tm)"
  by (simp add: setInitialElementIndex_def cursorIsStale_def searchedIndex_def
      searchPredicate_def [abs_def] Let_def split: option.splits)

lemma searchedIndex_eq:
  "searchedIndex t f tm = findIndex (elements tm) (searchPredicate t f)"
  by (simp add: searchedIndex_def)

lemma searchedIndex_range:
  "- 1 \<le> searchedIndex t f tm \<and> searchedIndex t f tm < int (length (elements tm))"
  unfolding searchedIndex_def by (rule findIndex_range)

lemma setInitialElementIndex_fields [simp]:
  "elements (setInitialElementIndex t f tm) = elements tm"
  "activeElements (setInitialElementIndex t f tm) = activeElements tm"
  "lastTimeMs (setInitialElementIndex t f tm) = lastTimeMs tm"
  "createElement (setInitialElementIndex t f tm) = createElement tm"
  "updateElement (setInitialElementIndex t f tm) = updateElement tm"
  "destroyElement (setInitialElementIndex t f tm) = destroyElement tm"
  "allowSkippingElements (setInitialElementIndex t f tm) = allowSkippingElements tm"
  by (simp_all add: setInitialElementIndex_eq)

lemma cursor_not_stale:
  assumes "\<not> cursorIsStale t f tm"
  obtains i e where "nextElementIndex tm = Some i" "element_at (elements tm) i = Some e"
    "if f then t < endTimeMs e else startTimeMs e < t"
    "\<And>l. lastTimeMs tm = Some l \<Longrightarrow> if f then l \<le> t else t \<le> l"
proof -
  from assms obtain i where i: "nextElementIndex tm = Some i"
    by (cases "nextElementIndex tm") (simp_all add: cursorIsStale_def)
  with assms obtain e where e: "element_at (elements tm) i = Some e"
    by (cases "element_at (elements tm) i") (simp_all add: cursorIsStale_def)
  from assms i e have 1: "if f then t < endTimeMs e else startTimeMs e < t"
    by (auto simp: cursorIsStale_def split: if_splits)
  have 2: "if f then l \<le> t else t \<le> l" if "lastTimeMs tm = Some l" for l
    using assms i e that by (auto simp: cursorIsStale_def split: if_splits)
  from i e 1 2 show ?thesis by (rule that)
qed

lemma setInitialElementIndex_cursor:
  assumes "nextElementIndex tm = Some c"
  shows "\<exists>i. nextElementIndex (setInitialElementIndex t f tm) = Some i
     \<and> (if f then 0 \<le> i else i < int (length (elements tm)))"
proof (cases "cursorIsStale t f tm")
  case True
  then show ?thesis
    using searchedIndex_range [of t f tm] by (cases f) (simp_all add: setInitialElementIndex_eq)
next
  case False
  then obtain i e where "nextElementIndex tm = Some i" "element_at (elements tm) i = Some e"
    by (rule cursor_not_stale)
  with False show ?thesis
    by (auto simp: setInitialElementIndex_eq element_at_Some)
qed

subsection \<open>The parts of update\<close>

lemma Timeline_update_eq:
  "Timeline_update t f tm =
     (case scan t f (setInitialElementIndex t f (withCursor f tm)) of
        Inl e \<Rightarrow> Inl e
      | Inr (tl1, ev1) \<Rightarrow>
          Inr (tl1\<lparr>activeElements :=
                     fst (reconcile (updateElement tl1) (destroyElement tl1) t (activeElements tl1)),
                   lastTimeMs := Some t\<rparr>,
               ev1 @ snd (reconcile (updateElement tl1) (destroyElement tl1) t (activeElements tl1))))"
  by (simp add: Timeline_update_def withCursor_def Let_def split: sum.splits prod.splits)

lemma withCursor_fields [simp]:
  "elements (withCursor f tm) = elements tm"
  "activeElements (withCursor f tm) = activeElements tm"
  "lastTimeMs (withCursor f tm) = lastTimeMs tm"
  "createElement (withCursor f tm) = createElement tm"
  "updateElement (withCursor f tm) = updateElement tm"
  "destroyElement (withCursor f tm) = destroyElement tm"
  "allowSkippingElements (withCursor f tm) = allowSkippingElements tm"
  by (simp_all add: withCursor_def split: option.splits)

lemma Timeline_update_InrD:
  assumes "Timeline_update t f tm = Inr (tm', ev)"
  obtains tl1 ev1 where
    "scan t f (setInitialElementIndex t f (withCursor f tm)) = Inr (tl1, ev1)"
    "tm' = tl1\<lparr>activeElements :=
                 fst (reconcile (updateElement tm) (destroyElement tm) t (activeElements tl1)),
               lastTimeMs := Some t\<rparr>"
    "ev = ev1 @ snd (reconcile (updateElement tm) (destroyElement tm) t (activeElements tl1))"
    "elements tl1 = elements tm" "allowSkippingElements tl1 = allowSkippingElements tm"
    "createElement tl1 = createElement tm" "updateElement tl1 = updateElement tm"
    "destroyElement tl1 = destroyElement tm"
proof -
  from assms obtain tl1 ev1 where
    s: "scan t f (setInitialElementIndex t f (withCursor f tm)) = Inr (tl1, ev1)"
    by (auto simp: Timeline_update_eq split: sum.splits)
  from scan_fields [OF s] have fl: "elements tl1 = elements tm"
    "allowSkippingElements tl1 = allowSkippingElements tm"
    "createElement tl1 = createElement tm" "updateElement tl1 = updateElement tm"
    "destroyElement tl1 = destroyElement tm"
    by simp_all
  from assms s fl have "tm' = tl1\<lparr>activeElements :=
                 fst (reconcile (updateElement tm) (destroyElement tm) t (activeElements tl1)),
               lastTimeMs := Some t\<rparr>"
    "ev = ev1 @ snd (reconcile (updateElement tm) (destroyElement tm) t (activeElements tl1))"
    by (simp_all add: Timeline_update_eq)
  with s fl show ?thesis using that by blast
qed

lemma reconcile_fst:
  "fst (reconcile u d t m) = filter (\<lambda>p. in_window t (snd p)) m"
proof (induction m)
  case Nil
  show ?case by simp
next
  case (Cons p m)
  obtain k st where p: "p = (k, st)" by (cases p)
  obtain kept ev where r: "reconcile u d t m = (kept, ev)" by (cases "reconcile u d t m")
  with Cons show ?case by (simp add: p in_window_def)
qed

lemma reconcile_snd:
  "snd (reconcile u d t m) =
     concat (map (\<lambda>p. if in_window t (snd p)
                          then (if u then [UpdateElement (fst p) t] else [])
                          else (if d then [DestroyElement (fst p) t] else [])) m)"
proof (induction m)
  case Nil
  show ?case by simp
next
  case (Cons p m)
  obtain k st where p: "p = (k, st)" by (cases p)
  obtain kept ev where r: "reconcile u d t m = (kept, ev)" by (cases "reconcile u d t m")
  with Cons show ?case by (simp add: p in_window_def)
qed

lemma reconcile_no_build:
  "Build k \<notin> set (snd (reconcile u d t m))"
  "CreateElement k t' \<notin> set (snd (reconcile u d t m))"
  by (auto simp: reconcile_snd split: if_splits)

lemma added_has_key:
  "has_key (activeElements (fst (added t i e tm))) k \<longleftrightarrow>
     has_key (activeElements tm) k
     \<or> (k = i \<and> (\<not> allowSkippingElements tm \<or> t < endTimeMs e))"
  by (auto simp: added_def)

lemma added_events:
  "snd (added t i e tm) =
     (if \<not> allowSkippingElements tm \<or> (t < endTimeMs e \<and> \<not> has_key (activeElements tm) i)
      then Build i # (if createElement tm then [CreateElement i t] else []) else [])"
  by (simp add: added_def)

text \<open>With skipping enabled, the scan builds only descriptors that have not ended and are not active.\<close>

lemma scan_build_skipping:
  assumes "scan t f tm = Inr (tm', ev)"
  shows "allowSkippingElements tm \<longrightarrow>
     (\<forall>k. Build k \<in> set ev \<or> (\<exists>t'. CreateElement k t' \<in> set ev) \<longrightarrow>
        (\<exists>e. element_at (elements tm) k = Some e \<and> t < endTimeMs e)
        \<and> \<not> has_key (activeElements tm) k)"
  using assms
proof (induction rule: scan_induct)
  case (stop tm)
  show ?case by simp
next
  case (step tm tl1 ev1 tl2 ev2)
  from step(2) obtain i e where ie: "nextElementIndex tm = Some i"
    "element_at (elements tm) i = Some e" "(tl1, ev1) = added t i e tm"
    by (rule addNextElement_InrD)
  then have tl1: "tl1 = fst (added t i e tm)" and ev1: "ev1 = snd (added t i e tm)"
    by (metis fst_conv, metis snd_conv)
  show ?case
  proof (intro impI allI)
    fix k
    assume allow: "allowSkippingElements tm"
      and k: "Build k \<in> set (ev1 @ ev2) \<or> (\<exists>t'. CreateElement k t' \<in> set (ev1 @ ev2))"
    from k consider (a) "Build k \<in> set ev1 \<or> (\<exists>t'. CreateElement k t' \<in> set ev1)"
      | (b) "Build k \<in> set ev2 \<or> (\<exists>t'. CreateElement k t' \<in> set ev2)"
      by auto
    then show "(\<exists>e. element_at (elements tm) k = Some e \<and> t < endTimeMs e)
        \<and> \<not> has_key (activeElements tm) k"
    proof cases
      case a
      with allow ie show ?thesis
        by (auto simp: ev1 added_events split: if_splits)
    next
      case b
      with step.IH allow have "(\<exists>e. element_at (elements tm) k = Some e \<and> t < endTimeMs e)
        \<and> \<not> has_key (activeElements tl1) k"
        by (simp add: tl1) blast
      then show ?thesis by (auto simp: tl1 added_has_key)
    qed
  qed
qed

lemma update_build_skipping:
  assumes "Timeline_update t f tm = Inr (tm', ev)" "allowSkippingElements tm"
    and "Build k \<in> set ev \<or> CreateElement k t' \<in> set ev"
  shows "(\<exists>e. element_at (elements tm) k = Some e \<and> t < endTimeMs e)
        \<and> \<not> has_key (activeElements tm) k"
proof -
  from assms(1) obtain tl1 ev1 where
    s: "scan t f (setInitialElementIndex t f (withCursor f tm)) = Inr (tl1, ev1)"
    and ev: "ev = ev1 @ snd (reconcile (updateElement tm) (destroyElement tm) t (activeElements tl1))"
    by (rule Timeline_update_InrD)
  from assms(3) ev have "Build k \<in> set ev1 \<or> (\<exists>t'. CreateElement k t' \<in> set ev1)"
    by (auto simp: reconcile_no_build)
  with scan_build_skipping [OF s] assms(2) show ?thesis by simp blast
qed

text \<open>The scan visits the indices from the cursor on, each once.\<close>

lemma scan_build_range:
  assumes "scan t f tm = Inr (tm', ev)"
  shows "\<forall>c k. nextElementIndex tm = Some c \<longrightarrow>
       Build k \<in> set ev \<or> (\<exists>t'. CreateElement k t' \<in> set ev) \<longrightarrow>
       (if f then c \<le> k else k \<le> c)"
  using assms
proof (induction rule: scan_induct)
  case (stop tm)
  show ?case by simp
next
  case (step tm tl1 ev1 tl2 ev2)
  from step(2) obtain i e where ie: "nextElementIndex tm = Some i"
    "element_at (elements tm) i = Some e" "(tl1, ev1) = added t i e tm"
    by (rule addNextElement_InrD)
  then have tl1: "tl1 = fst (added t i e tm)" and ev1: "ev1 = snd (added t i e tm)"
    by (metis fst_conv, metis snd_conv)
  have nx: "nextElementIndex (setNextElementIndex f tl1) = Some (i + (if f then 1 else - 1))"
    by (simp add: tl1 ie)
  show ?case
  proof (intro allI impI)
    fix c k
    assume c: "nextElementIndex tm = Some c"
      and k: "Build k \<in> set (ev1 @ ev2) \<or> (\<exists>t'. CreateElement k t' \<in> set (ev1 @ ev2))"
    from c ie have ci: "c = i" by simp
    from k consider (a) "Build k \<in> set ev1 \<or> (\<exists>t'. CreateElement k t' \<in> set ev1)"
      | (b) "Build k \<in> set ev2 \<or> (\<exists>t'. CreateElement k t' \<in> set ev2)"
      by auto
    then show "if f then c \<le> k else k \<le> c"
    proof cases
      case a
      then have "k = i" by (auto simp: ev1 added_events split: if_splits)
      with ci show ?thesis by simp
    next
      case b
      with step.IH nx have "if f then i + (if f then 1 else - 1) \<le> k
                            else k \<le> i + (if f then 1 else - 1)"
        by blast
      with ci show ?thesis by (auto split: if_splits)
    qed
  qed
qed

lemma scan_build_count:
  assumes "scan t f tm = Inr (tm', ev)"
  shows "count_list ev (Build k) \<le> 1 \<and> count_list ev (CreateElement k t') \<le> 1"
  using assms
proof (induction rule: scan_induct)
  case (stop tm)
  show ?case by simp
next
  case (step tm tl1 ev1 tl2 ev2)
  from step(2) obtain i e where ie: "nextElementIndex tm = Some i"
    "element_at (elements tm) i = Some e" "(tl1, ev1) = added t i e tm"
    by (rule addNextElement_InrD)
  then have tl1: "tl1 = fst (added t i e tm)" and ev1: "ev1 = snd (added t i e tm)"
    by (metis fst_conv, metis snd_conv)
  have nx: "nextElementIndex (setNextElementIndex f tl1) = Some (i + (if f then 1 else - 1))"
    by (simp add: tl1 ie)
  show ?case
  proof (cases "k = i")
    case True
    from scan_build_range [OF step(3)] nx
    have "Build k \<notin> set ev2" "CreateElement k t' \<notin> set ev2"
      using True by (auto split: if_splits)
    then have "count_list ev2 (Build k) = 0" "count_list ev2 (CreateElement k t') = 0"
      by (simp_all add: count_list_0_iff)
    then show ?thesis by (simp add: ev1 added_events)
  next
    case False
    then have "count_list ev1 (Build k) = 0" "count_list ev1 (CreateElement k t') = 0"
      by (simp_all add: ev1 added_events)
    with step.IH show ?thesis by simp
  qed
qed

lemma scan_distinct:
  assumes "scan t f tm = Inr (tm', ev)"
  shows "distinct (map fst (activeElements tm)) \<longrightarrow> distinct (map fst (activeElements tm'))"
  using assms
proof (induction rule: scan_induct)
  case (stop tm)
  show ?case by simp
next
  case (step tm tl1 ev1 tl2 ev2)
  from step(2) obtain i e where "(tl1, ev1) = added t i e tm"
    by (rule addNextElement_InrD)
  then have tl1: "tl1 = fst (added t i e tm)" by (metis fst_conv)
  have "distinct (map fst (activeElements tm)) \<longrightarrow> distinct (map fst (activeElements tl1))"
    by (simp add: tl1 added_def distinct_update)
  with step.IH show ?case by simp
qed

lemma reconcile_distinct:
  "distinct (map fst m) \<Longrightarrow> distinct (map fst (fst (reconcile u d t m)))"
  by (simp add: reconcile_fst distinct_map_filter)

lemma update_distinct:
  assumes "Timeline_update t f tm = Inr (tm', ev)" "distinct (map fst (activeElements tm))"
  shows "distinct (map fst (activeElements tm'))"
proof -
  from assms(1) obtain tl1 ev1 where
    s: "scan t f (setInitialElementIndex t f (withCursor f tm)) = Inr (tl1, ev1)"
    and tm': "tm' = tl1\<lparr>activeElements :=
                 fst (reconcile (updateElement tm) (destroyElement tm) t (activeElements tl1)),
               lastTimeMs := Some t\<rparr>"
    by (rule Timeline_update_InrD)
  from scan_distinct [OF s] assms(2) have "distinct (map fst (activeElements tl1))" by simp
  then show ?thesis by (simp add: tm' reconcile_distinct)
qed

lemma update_build_count:
  assumes "Timeline_update t f tm = Inr (tm', ev)"
  shows "count_list ev (Build k) \<le> 1" "count_list ev (CreateElement k t') \<le> 1"
proof -
  from assms(1) obtain tl1 ev1 where
    s: "scan t f (setInitialElementIndex t f (withCursor f tm)) = Inr (tl1, ev1)"
    and ev: "ev = ev1 @ snd (reconcile (updateElement tm) (destroyElement tm) t (activeElements tl1))"
    by (rule Timeline_update_InrD)
  have "count_list (snd (reconcile (updateElement tm) (destroyElement tm) t (activeElements tl1)))
          (Build k) = 0"
    "count_list (snd (reconcile (updateElement tm) (destroyElement tm) t (activeElements tl1)))
          (CreateElement k t') = 0"
    by (simp_all add: count_list_0_iff reconcile_no_build)
  with scan_build_count [OF s, of k t'] show "count_list ev (Build k) \<le> 1"
    "count_list ev (CreateElement k t') \<le> 1"
    by (simp_all add: ev)
qed

text \<open>The equations that evaluate \<open>update\<close> on a concrete timeline.\<close>

lemmas timeline_eval =
  Timeline_update_def setInitialElementIndex_def element_at_def Let_def
  shouldAddNextElement_def addNextElement_def setNextElementIndex_def has_key_def
  findIndex_def timeline_of_def descriptor_def scan.simps

subsection \<open>The scan in closed form\<close>

lemma added_builds:
  assumes "element_at (elements tm) i = Some e"
  shows "snd (added t i e tm)
     = (if builds t tm i then Build i # (if createElement tm then [CreateElement i t] else [])
        else [])"
    and "has_key (activeElements (fst (added t i e tm))) k
     \<longleftrightarrow> has_key (activeElements tm) k \<or> (k = i \<and> builds t tm i)"
  using assms by (auto simp: added_def builds_def)

lemma builds_cong:
  assumes "elements tm' = elements tm" "allowSkippingElements tm' = allowSkippingElements tm"
    "has_key (activeElements tm') k = has_key (activeElements tm) k"
  shows "builds t tm' k = builds t tm k"
  using assms by (simp add: builds_def)

text \<open>
  The scan in closed form: where the cursor stops, which keys are active afterwards and
  how often each descriptor is built.
\<close>

lemma scan_closed_form:
  assumes "scan t f tm = Inr (tm', ev)"
  shows "\<forall>c. nextElementIndex tm = Some c \<longrightarrow>
     (\<exists>m. nextElementIndex tm' = Some m
        \<and> (if f then c \<le> m else m \<le> c)
        \<and> (\<forall>k. visited f c m k \<longrightarrow>
              (\<exists>e. element_at (elements tm) k = Some e
                 \<and> (if f then startTimeMs e < t else t < endTimeMs e)))
        \<and> (\<forall>e. element_at (elements tm) m = Some e \<longrightarrow>
              (if f then t \<le> startTimeMs e else endTimeMs e \<le> t))
        \<and> (\<forall>k. has_key (activeElements tm') k \<longleftrightarrow>
              has_key (activeElements tm) k \<or> (visited f c m k \<and> builds t tm k))
        \<and> (\<forall>k. count_list ev (Build k) = (if visited f c m k \<and> builds t tm k then 1 else 0))
        \<and> (\<forall>k t'. count_list ev (CreateElement k t')
              = (if createElement tm \<and> t' = t \<and> visited f c m k \<and> builds t tm k
                 then 1 else 0))
        \<and> (\<forall>k t'. UpdateElement k t' \<notin> set ev \<and> DestroyElement k t' \<notin> set ev))"
  using assms
proof (induction rule: scan_induct)
  case (stop tm)
  show ?case
  proof (intro allI impI)
    fix c assume c: "nextElementIndex tm = Some c"
    have "\<forall>e. element_at (elements tm) c = Some e \<longrightarrow>
              (if f then t \<le> startTimeMs e else endTimeMs e \<le> t)"
      using shouldAddNextElement_FalseD [OF stop c] by blast
    moreover have "\<not> visited f c c k" for k by (simp add: visited_def)
    ultimately show "\<exists>m. nextElementIndex tm = Some m
        \<and> (if f then c \<le> m else m \<le> c)
        \<and> (\<forall>k. visited f c m k \<longrightarrow>
              (\<exists>e. element_at (elements tm) k = Some e
                 \<and> (if f then startTimeMs e < t else t < endTimeMs e)))
        \<and> (\<forall>e. element_at (elements tm) m = Some e \<longrightarrow>
              (if f then t \<le> startTimeMs e else endTimeMs e \<le> t))
        \<and> (\<forall>k. has_key (activeElements tm) k \<longleftrightarrow>
              has_key (activeElements tm) k \<or> (visited f c m k \<and> builds t tm k))
        \<and> (\<forall>k. count_list [] (Build k) = (if visited f c m k \<and> builds t tm k then 1 else 0))
        \<and> (\<forall>k t'. count_list [] (CreateElement k t')
              = (if createElement tm \<and> t' = t \<and> visited f c m k \<and> builds t tm k
                 then 1 else 0))
        \<and> (\<forall>k t'. UpdateElement k t' \<notin> set [] \<and> DestroyElement k t' \<notin> set [])"
      using c by (intro exI [of _ c]) simp
  qed
next
  case (step tm tl1 ev1 tl2 ev2)
  from step(2) obtain i e where ie: "nextElementIndex tm = Some i"
    "element_at (elements tm) i = Some e" "(tl1, ev1) = added t i e tm"
    by (rule addNextElement_InrD)
  then have tl1: "tl1 = fst (added t i e tm)" and ev1: "ev1 = snd (added t i e tm)"
    by (metis fst_conv, metis snd_conv)
  let ?n = "i + (if f then 1 else - 1)"
  let ?s = "setNextElementIndex f tl1"
  have nx: "nextElementIndex ?s = Some ?n"
    by (simp add: tl1 ie)
  have fl: "elements ?s = elements tm" "allowSkippingElements ?s = allowSkippingElements tm"
    "createElement ?s = createElement tm"
    by (simp_all add: tl1)
  have fl1: "elements tl1 = elements tm" "allowSkippingElements tl1 = allowSkippingElements tm"
    by (simp_all add: tl1)
  have act1: "has_key (activeElements tl1) k \<longleftrightarrow> has_key (activeElements tm) k \<or> (k = i \<and> builds t tm i)"
    for k by (simp add: tl1 added_builds(2) [OF ie(2)])
  have act: "has_key (activeElements ?s) k \<longleftrightarrow> has_key (activeElements tm) k \<or> (k = i \<and> builds t tm i)"
    for k by (simp add: act1)
  from shouldAddNextElement_TrueD [OF step(1)] ie
  have here: "if f then startTimeMs e < t else t < endTimeMs e"
    by (metis option.inject)
  from step.IH nx obtain m where m: "nextElementIndex tl2 = Some m"
    "if f then ?n \<le> m else m \<le> ?n"
    "\<And>k. visited f ?n m k \<Longrightarrow>
          \<exists>e. element_at (elements tm) k = Some e
             \<and> (if f then startTimeMs e < t else t < endTimeMs e)"
    "\<And>e. element_at (elements tm) m = Some e \<Longrightarrow>
          (if f then t \<le> startTimeMs e else endTimeMs e \<le> t)"
    "\<And>k. has_key (activeElements tl2) k \<longleftrightarrow>
          has_key (activeElements ?s) k \<or> (visited f ?n m k \<and> builds t ?s k)"
    "\<And>k. count_list ev2 (Build k) = (if visited f ?n m k \<and> builds t ?s k then 1 else 0)"
    "\<And>k t'. count_list ev2 (CreateElement k t')
          = (if createElement tm \<and> t' = t \<and> visited f ?n m k \<and> builds t ?s k then 1 else 0)"
    "\<And>k t'. UpdateElement k t' \<notin> set ev2 \<and> DestroyElement k t' \<notin> set ev2"
    unfolding fl by blast
  have vis: "visited f i m k \<longleftrightarrow> k = i \<or> visited f ?n m k" for k
    using m(2) by (auto simp: visited_def split: if_splits)
  have notn: "\<not> visited f ?n m i"
    by (auto simp: visited_def)
  have bs: "builds t ?s k = builds t tm k" if "k \<noteq> i" for k
    using that by (intro builds_cong) (simp_all add: fl1 act1)
  show ?case
  proof (intro allI impI)
    fix c assume "nextElementIndex tm = Some c"
    with ie have c: "c = i" by simp
    have 1: "if f then c \<le> m else m \<le> c"
      using m(2) c by (auto split: if_splits)
    have 2: "\<forall>k. visited f c m k \<longrightarrow>
              (\<exists>e. element_at (elements tm) k = Some e
                 \<and> (if f then startTimeMs e < t else t < endTimeMs e))"
      using m(3) ie(2) here by (auto simp: c vis)
    have 3: "\<forall>e. element_at (elements tm) m = Some e \<longrightarrow>
              (if f then t \<le> startTimeMs e else endTimeMs e \<le> t)"
      using m(4) by blast
    have 4: "\<forall>k. has_key (activeElements tl2) k \<longleftrightarrow>
              has_key (activeElements tm) k \<or> (visited f c m k \<and> builds t tm k)"
    proof
      fix k
      show "has_key (activeElements tl2) k \<longleftrightarrow>
              has_key (activeElements tm) k \<or> (visited f c m k \<and> builds t tm k)"
      proof (cases "k = i")
        case True
        then show ?thesis using notn by (simp add: m(5) act1 c vis)
      next
        case False
        then show ?thesis by (simp add: m(5) act1 c vis bs)
      qed
    qed
    have 5: "\<forall>k. count_list (ev1 @ ev2) (Build k)
               = (if visited f c m k \<and> builds t tm k then 1 else 0)"
    proof
      fix k
      show "count_list (ev1 @ ev2) (Build k)
               = (if visited f c m k \<and> builds t tm k then 1 else 0)"
      proof (cases "k = i")
        case True
        then show ?thesis
          using notn by (simp add: m(6) ev1 added_builds(1) [OF ie(2)] c vis)
      next
        case False
        then show ?thesis
          by (simp add: m(6) ev1 added_builds(1) [OF ie(2)] c vis bs)
      qed
    qed
    have 6: "\<forall>k t'. count_list (ev1 @ ev2) (CreateElement k t')
              = (if createElement tm \<and> t' = t \<and> visited f c m k \<and> builds t tm k
                 then 1 else 0)"
    proof (intro allI)
      fix k t'
      show "count_list (ev1 @ ev2) (CreateElement k t')
              = (if createElement tm \<and> t' = t \<and> visited f c m k \<and> builds t tm k
                 then 1 else 0)"
      proof (cases "k = i")
        case True
        then show ?thesis
          using notn by (simp add: m(7) ev1 added_builds(1) [OF ie(2)] c vis)
      next
        case False
        then show ?thesis
          by (simp add: m(7) ev1 added_builds(1) [OF ie(2)] c vis bs)
      qed
    qed
    have 7: "\<forall>k t'. UpdateElement k t' \<notin> set (ev1 @ ev2) \<and> DestroyElement k t' \<notin> set (ev1 @ ev2)"
      using m(8) by (simp add: ev1 added_builds(1) [OF ie(2)])
    from m(1) 1 2 3 4 5 6 7
    show "\<exists>m. nextElementIndex tl2 = Some m
        \<and> (if f then c \<le> m else m \<le> c)
        \<and> (\<forall>k. visited f c m k \<longrightarrow>
              (\<exists>e. element_at (elements tm) k = Some e
                 \<and> (if f then startTimeMs e < t else t < endTimeMs e)))
        \<and> (\<forall>e. element_at (elements tm) m = Some e \<longrightarrow>
              (if f then t \<le> startTimeMs e else endTimeMs e \<le> t))
        \<and> (\<forall>k. has_key (activeElements tl2) k \<longleftrightarrow>
              has_key (activeElements tm) k \<or> (visited f c m k \<and> builds t tm k))
        \<and> (\<forall>k. count_list (ev1 @ ev2) (Build k)
              = (if visited f c m k \<and> builds t tm k then 1 else 0))
        \<and> (\<forall>k t'. count_list (ev1 @ ev2) (CreateElement k t')
              = (if createElement tm \<and> t' = t \<and> visited f c m k \<and> builds t tm k
                 then 1 else 0))
        \<and> (\<forall>k t'. UpdateElement k t' \<notin> set (ev1 @ ev2)
              \<and> DestroyElement k t' \<notin> set (ev1 @ ev2))"
      by blast
  qed
qed

subsection \<open>Consistency of the active set\<close>

lemma active_consistentD:
  assumes "active_consistent tm" "(k, st) \<in> set (activeElements tm)"
  obtains e where "element_at (elements tm) k = Some e"
    "startTimeMs st = startTimeMs e" "endTimeMs st = endTimeMs e"
proof -
  from assms have "case element_at (elements tm) k of None \<Rightarrow> False
     | Some e \<Rightarrow> startTimeMs st = startTimeMs e \<and> endTimeMs st = endTimeMs e"
    unfolding active_consistent_def list_all_iff by blast
  then show ?thesis using that by (cases "element_at (elements tm) k") simp_all
qed

lemma active_consistentI:
  assumes "distinct (map fst (activeElements tm))"
    and "\<And>k st. (k, st) \<in> set (activeElements tm) \<Longrightarrow>
          \<exists>e. element_at (elements tm) k = Some e
             \<and> startTimeMs st = startTimeMs e \<and> endTimeMs st = endTimeMs e"
  shows "active_consistent tm"
  unfolding active_consistent_def list_all_iff
proof (intro conjI ballI)
  show "distinct (map fst (activeElements tm))" by (rule assms(1))
next
  fix p assume p: "p \<in> set (activeElements tm)"
  obtain k st where ks: "p = (k, st)" by (cases p)
  from assms(2) [of k st] p ks
  show "case p of (k, st) \<Rightarrow> case element_at (elements tm) k of None \<Rightarrow> False
     | Some e \<Rightarrow> startTimeMs st = startTimeMs e \<and> endTimeMs st = endTimeMs e"
    by auto
qed

lemma active_consistent_distinct:
  "active_consistent tm \<Longrightarrow> distinct (map fst (activeElements tm))"
  by (simp add: active_consistent_def)

lemma active_consistent_window:
  assumes "active_consistent tm" "(k, st) \<in> set (activeElements tm)"
  obtains e where "element_at (elements tm) k = Some e" "in_window t st = in_window t e"
proof -
  from assms obtain e where "element_at (elements tm) k = Some e"
    "startTimeMs st = startTimeMs e" "endTimeMs st = endTimeMs e"
    by (rule active_consistentD)
  then show ?thesis using that by (simp add: in_window_def)
qed

lemma set_update_cases:
  "p \<in> set (AList.update k v m) \<Longrightarrow> p = (k, v) \<or> p \<in> set m"
  by (induction m) (auto split: if_splits)

lemma added_consistent:
  assumes "active_consistent tm" "element_at (elements tm) i = Some e"
  shows "active_consistent (fst (added t i e tm))"
proof (rule active_consistentI)
  show "distinct (map fst (activeElements (fst (added t i e tm))))"
    using active_consistent_distinct [OF assms(1)] by (simp add: added_def distinct_update)
next
  fix k st
  assume "(k, st) \<in> set (activeElements (fst (added t i e tm)))"
  then have "(k, st) = (i, \<lparr> startTimeMs = startTimeMs e, endTimeMs = endTimeMs e,
                               inst = build e () \<rparr>)
      \<or> (k, st) \<in> set (activeElements tm)"
    by (auto simp: added_def dest: set_update_cases split: if_splits)
  then show "\<exists>e'. element_at (elements (fst (added t i e tm))) k = Some e'
             \<and> startTimeMs st = startTimeMs e' \<and> endTimeMs st = endTimeMs e'"
  proof
    assume "(k, st) = (i, \<lparr> startTimeMs = startTimeMs e, endTimeMs = endTimeMs e,
                               inst = build e () \<rparr>)"
    with assms(2) show ?thesis by simp
  next
    assume "(k, st) \<in> set (activeElements tm)"
    from active_consistentD [OF assms(1) this] show ?thesis by (metis added_fields(1))
  qed
qed

lemma active_consistent_cong:
  assumes "elements tm' = elements tm" "activeElements tm' = activeElements tm"
  shows "active_consistent tm' = active_consistent tm"
  using assms by (simp add: active_consistent_def)

lemma scan_consistent:
  assumes "scan t f tm = Inr (tm', ev)"
  shows "active_consistent tm \<longrightarrow> active_consistent tm'"
  using assms
proof (induction rule: scan_induct)
  case (stop tm)
  show ?case by simp
next
  case (step tm tl1 ev1 tl2 ev2)
  from step(2) obtain i e where ie: "element_at (elements tm) i = Some e"
    "(tl1, ev1) = added t i e tm"
    by (rule addNextElement_InrD)
  then have tl1: "tl1 = fst (added t i e tm)" by (metis fst_conv)
  have "active_consistent (setNextElementIndex f tl1) = active_consistent tl1"
    by (rule active_consistent_cong) simp_all
  with added_consistent [OF _ ie(1), of t] step.IH show ?case
    by (simp add: tl1)
qed

subsection \<open>The reconciliation loop in closed form\<close>

lemma reconcile_set:
  "(k, st) \<in> set (fst (reconcile u d t m)) \<longleftrightarrow> (k, st) \<in> set m \<and> in_window t st"
  by (auto simp: reconcile_fst)

lemma reconcile_has_key:
  "has_key (fst (reconcile u d t m)) k \<longleftrightarrow> (\<exists>st. (k, st) \<in> set m \<and> in_window t st)"
  by (force simp: has_key_iff reconcile_fst)

lemma reconcile_counts:
  assumes "distinct (map fst m)"
  shows "count_list (snd (reconcile u d t m)) (DestroyElement k t')
       = (if d \<and> t' = t \<and> (\<exists>st. (k, st) \<in> set m \<and> \<not> in_window t st) then 1 else 0)"
    and "count_list (snd (reconcile u d t m)) (UpdateElement k t')
       = (if u \<and> t' = t \<and> (\<exists>st. (k, st) \<in> set m \<and> in_window t st) then 1 else 0)"
  unfolding reconcile_snd
  using assms
proof (induction m)
  case Nil
  { case 1 show ?case by simp }
  { case 2 show ?case by simp }
next
  case (Cons p m)
  obtain k' v' where p: "p = (k', v')" by (cases p)
  { case 1
    then have d: "distinct (map fst m)" and nk: "\<And>st. (k', st) \<notin> set m"
      by (force simp: p)+
    from Cons(1) [OF d] nk show ?case
      by (auto simp: p) }
  { case 2
    then have d: "distinct (map fst m)" and nk: "\<And>st. (k', st) \<notin> set m"
      by (force simp: p)+
    from Cons(2) [OF d] nk show ?case
      by (auto simp: p) }
qed

lemma reconcile_consistent:
  assumes "active_consistent tl1"
  shows "active_consistent
     (tl1\<lparr>activeElements := fst (reconcile u d t (activeElements tl1)), lastTimeMs := l\<rparr>)"
proof (rule active_consistentI)
  show "distinct (map fst (activeElements
      (tl1\<lparr>activeElements := fst (reconcile u d t (activeElements tl1)), lastTimeMs := l\<rparr>)))"
    using active_consistent_distinct [OF assms] by (simp add: reconcile_distinct)
next
  fix k st
  assume "(k, st) \<in> set (activeElements
      (tl1\<lparr>activeElements := fst (reconcile u d t (activeElements tl1)), lastTimeMs := l\<rparr>))"
  then have "(k, st) \<in> set (activeElements tl1)" by (simp add: reconcile_set)
  from active_consistentD [OF assms this]
  show "\<exists>e. element_at (elements
      (tl1\<lparr>activeElements := fst (reconcile u d t (activeElements tl1)), lastTimeMs := l\<rparr>)) k
        = Some e \<and> startTimeMs st = startTimeMs e \<and> endTimeMs st = endTimeMs e"
    by auto
qed

subsection \<open>One update call in closed form\<close>

lemma consistent_window_iff:
  assumes "active_consistent tm"
  shows "(\<exists>st. (k, st) \<in> set (activeElements tm) \<and> in_window t st)
       \<longleftrightarrow> has_key (activeElements tm) k
          \<and> (\<exists>e. element_at (elements tm) k = Some e \<and> in_window t e)"
    and "(\<exists>st. (k, st) \<in> set (activeElements tm) \<and> \<not> in_window t st)
       \<longleftrightarrow> has_key (activeElements tm) k
          \<and> \<not> (\<exists>e. element_at (elements tm) k = Some e \<and> in_window t e)"
proof -
  have w: "\<exists>e. element_at (elements tm) k = Some e \<and> in_window t st = in_window t e"
    if "(k, st) \<in> set (activeElements tm)" for st
    using active_consistent_window [OF assms that, of t] by metis
  have hk: "has_key (activeElements tm) k \<longleftrightarrow> (\<exists>st. (k, st) \<in> set (activeElements tm))"
    by (force simp: has_key_iff)
  show "(\<exists>st. (k, st) \<in> set (activeElements tm) \<and> in_window t st)
       \<longleftrightarrow> has_key (activeElements tm) k
          \<and> (\<exists>e. element_at (elements tm) k = Some e \<and> in_window t e)"
    unfolding hk using w by (metis option.inject)
  show "(\<exists>st. (k, st) \<in> set (activeElements tm) \<and> \<not> in_window t st)
       \<longleftrightarrow> has_key (activeElements tm) k
          \<and> \<not> (\<exists>e. element_at (elements tm) k = Some e \<and> in_window t e)"
    unfolding hk using w by (metis option.inject)
qed

lemma withCursor_cursor: "\<exists>c. nextElementIndex (withCursor f tm) = Some c"
  by (cases "nextElementIndex tm") (simp_all add: withCursor_def)

lemma update_closed_form:
  assumes "Timeline_update t f tm = Inr (tm', ev)" and "active_consistent tm"
  obtains c m where
    "nextElementIndex (setInitialElementIndex t f (withCursor f tm)) = Some c"
    "nextElementIndex tm' = Some m" "if f then c \<le> m else m \<le> c"
    "\<And>k. visited f c m k \<Longrightarrow>
       \<exists>e. element_at (elements tm) k = Some e
          \<and> (if f then startTimeMs e < t else t < endTimeMs e)"
    "\<And>e. element_at (elements tm) m = Some e \<Longrightarrow>
       (if f then t \<le> startTimeMs e else endTimeMs e \<le> t)"
    "\<And>k. has_key (activeElements tm') k \<longleftrightarrow>
       (has_key (activeElements tm) k \<or> (visited f c m k \<and> builds t tm k))
       \<and> (\<exists>e. element_at (elements tm) k = Some e \<and> in_window t e)"
    "\<And>k. count_list ev (Build k) = (if visited f c m k \<and> builds t tm k then 1 else 0)"
    "\<And>k t'. count_list ev (CreateElement k t')
       = (if createElement tm \<and> t' = t \<and> visited f c m k \<and> builds t tm k then 1 else 0)"
    "\<And>k t'. count_list ev (DestroyElement k t')
       = (if destroyElement tm \<and> t' = t
             \<and> (has_key (activeElements tm) k \<or> (visited f c m k \<and> builds t tm k))
             \<and> \<not> (\<exists>e. element_at (elements tm) k = Some e \<and> in_window t e)
          then 1 else 0)"
    "\<And>k t'. count_list ev (UpdateElement k t')
       = (if updateElement tm \<and> t' = t
             \<and> (has_key (activeElements tm) k \<or> (visited f c m k \<and> builds t tm k))
             \<and> (\<exists>e. element_at (elements tm) k = Some e \<and> in_window t e)
          then 1 else 0)"
proof -
  let ?s = "setInitialElementIndex t f (withCursor f tm)"
  from assms(1) obtain tl1 ev1 where
    s: "scan t f ?s = Inr (tl1, ev1)"
    and tm': "tm' = tl1\<lparr>activeElements :=
                 fst (reconcile (updateElement tm) (destroyElement tm) t (activeElements tl1)),
               lastTimeMs := Some t\<rparr>"
    and ev: "ev = ev1 @ snd (reconcile (updateElement tm) (destroyElement tm) t (activeElements tl1))"
    and els: "elements tl1 = elements tm"
    by (rule Timeline_update_InrD)
  let ?r = "reconcile (updateElement tm) (destroyElement tm) t (activeElements tl1)"
  obtain c0 where "nextElementIndex (withCursor f tm) = Some c0"
    using withCursor_cursor by blast
  from setInitialElementIndex_cursor [OF this, of t f]
  obtain c where c: "nextElementIndex ?s = Some c" by blast
  have bs: "builds t ?s k = builds t tm k" for k
    by (rule builds_cong) simp_all
  from scan_closed_form [OF s] c obtain m where m: "nextElementIndex tl1 = Some m"
    "if f then c \<le> m else m \<le> c"
    "\<And>k. visited f c m k \<Longrightarrow>
          \<exists>e. element_at (elements tm) k = Some e
             \<and> (if f then startTimeMs e < t else t < endTimeMs e)"
    "\<And>e. element_at (elements tm) m = Some e \<Longrightarrow>
          (if f then t \<le> startTimeMs e else endTimeMs e \<le> t)"
    "\<And>k. has_key (activeElements tl1) k \<longleftrightarrow>
          has_key (activeElements tm) k \<or> (visited f c m k \<and> builds t tm k)"
    "\<And>k. count_list ev1 (Build k) = (if visited f c m k \<and> builds t tm k then 1 else 0)"
    "\<And>k t'. count_list ev1 (CreateElement k t')
          = (if createElement tm \<and> t' = t \<and> visited f c m k \<and> builds t tm k then 1 else 0)"
    "\<And>k t'. UpdateElement k t' \<notin> set ev1 \<and> DestroyElement k t' \<notin> set ev1"
    unfolding bs by (simp only: setInitialElementIndex_fields withCursor_fields) blast
  have "active_consistent ?s = active_consistent tm"
    by (rule active_consistent_cong) simp_all
  with scan_consistent [OF s] assms(2) have con: "active_consistent tl1" by simp
  then have dis: "distinct (map fst (activeElements tl1))"
    by (rule active_consistent_distinct)
  have 1: "nextElementIndex tm' = Some m" by (simp add: tm' m(1))
  have 6: "has_key (activeElements tm') k \<longleftrightarrow>
       (has_key (activeElements tm) k \<or> (visited f c m k \<and> builds t tm k))
       \<and> (\<exists>e. element_at (elements tm) k = Some e \<and> in_window t e)" for k
    using consistent_window_iff(1) [OF con, of k t]
    by (simp add: tm' reconcile_has_key m(5) els)
  have z: "count_list (snd ?r) (Build k) = 0" "count_list (snd ?r) (CreateElement k t') = 0"
    "count_list ev1 (DestroyElement k t') = 0" "count_list ev1 (UpdateElement k t') = 0"
    for k t'
    using m(8) by (simp_all add: count_list_0_iff reconcile_no_build)
  have 7: "count_list ev (Build k) = (if visited f c m k \<and> builds t tm k then 1 else 0)" for k
    by (simp add: ev z m(6))
  have 8: "count_list ev (CreateElement k t')
       = (if createElement tm \<and> t' = t \<and> visited f c m k \<and> builds t tm k then 1 else 0)"
    for k t'
    by (simp add: ev z m(7))
  have 9: "count_list ev (DestroyElement k t')
       = (if destroyElement tm \<and> t' = t
             \<and> (has_key (activeElements tm) k \<or> (visited f c m k \<and> builds t tm k))
             \<and> \<not> (\<exists>e. element_at (elements tm) k = Some e \<and> in_window t e)
          then 1 else 0)" for k t'
    using consistent_window_iff(2) [OF con, of k t]
    by (simp add: ev z reconcile_counts(1) [OF dis] m(5) els)
  have 10: "count_list ev (UpdateElement k t')
       = (if updateElement tm \<and> t' = t
             \<and> (has_key (activeElements tm) k \<or> (visited f c m k \<and> builds t tm k))
             \<and> (\<exists>e. element_at (elements tm) k = Some e \<and> in_window t e)
          then 1 else 0)" for k t'
    using consistent_window_iff(1) [OF con, of k t]
    by (simp add: ev z reconcile_counts(2) [OF dis] m(5) els)
  from c 1 m(2) m(3) m(4) 6 7 8 9 10 show ?thesis by (rule that)
qed

lemma update_fields:
  assumes "Timeline_update t f tm = Inr (tm', ev)"
  shows "elements tm' = elements tm" "lastTimeMs tm' = Some t"
    "createElement tm' = createElement tm" "updateElement tm' = updateElement tm"
    "destroyElement tm' = destroyElement tm"
    "allowSkippingElements tm' = allowSkippingElements tm"
proof -
  from assms obtain tl1 ev1 where
    "tm' = tl1\<lparr>activeElements :=
                 fst (reconcile (updateElement tm) (destroyElement tm) t (activeElements tl1)),
               lastTimeMs := Some t\<rparr>"
    "elements tl1 = elements tm" "allowSkippingElements tl1 = allowSkippingElements tm"
    "createElement tl1 = createElement tm" "updateElement tl1 = updateElement tm"
    "destroyElement tl1 = destroyElement tm"
    by (rule Timeline_update_InrD)
  then show "elements tm' = elements tm" "lastTimeMs tm' = Some t"
    "createElement tm' = createElement tm" "updateElement tm' = updateElement tm"
    "destroyElement tm' = destroyElement tm"
    "allowSkippingElements tm' = allowSkippingElements tm"
    by simp_all
qed

lemma update_consistent:
  assumes "Timeline_update t f tm = Inr (tm', ev)" and "active_consistent tm"
  shows "active_consistent tm'"
proof -
  let ?s = "setInitialElementIndex t f (withCursor f tm)"
  from assms(1) obtain tl1 ev1 where
    s: "scan t f ?s = Inr (tl1, ev1)"
    and tm': "tm' = tl1\<lparr>activeElements :=
                 fst (reconcile (updateElement tm) (destroyElement tm) t (activeElements tl1)),
               lastTimeMs := Some t\<rparr>"
    by (rule Timeline_update_InrD)
  have "active_consistent ?s = active_consistent tm"
    by (rule active_consistent_cong) simp_all
  with scan_consistent [OF s] assms(2) have "active_consistent tl1" by simp
  then show ?thesis unfolding tm' by (rule reconcile_consistent)
qed

subsection \<open>Runs of update calls\<close>

lemma Timeline_updates_invariant:
  assumes "Timeline_updates calls tm = Inr (tm', evs)" and "I tm"
    and "\<And>t f a b ev. I a \<Longrightarrow> Timeline_update t f a = Inr (b, ev) \<Longrightarrow> I b"
  shows "I tm'"
  using assms(1,2)
proof (induction calls arbitrary: tm evs)
  case Nil
  then show ?case by simp
next
  case (Cons call calls)
  obtain t f where call: "call = (t, f)" by (cases call)
  from Cons.prems(1) obtain tl1 ev evs' where
    u: "Timeline_update t f tm = Inr (tl1, ev)"
    and r: "Timeline_updates calls tl1 = Inr (tm', evs')"
    by (auto simp: call split: sum.splits)
  from assms(3) [OF Cons.prems(2) u] have "I tl1" .
  from Cons.IH [OF r this] show ?case .
qed

lemma constructor_fresh:
  assumes "Timeline_constructor options = Inr tm0"
  shows "elements tm0 = sort_key startTimeMs (opt_elements options)"
    "activeElements tm0 = []" "lastTimeMs tm0 = None" "nextElementIndex tm0 = None"
    "createElement tm0 = opt_createElement options"
    "updateElement tm0 = opt_updateElement options"
    "destroyElement tm0 = opt_destroyElement options"
    "allowSkippingElements tm0
       = (case opt_allowSkippingElements options of None \<Rightarrow> False | Some b \<Rightarrow> b)"
  using assms by (auto simp: Timeline_constructor_def)

lemma constructor_invariants:
  assumes "Timeline_constructor options = Inr tm0"
  shows "active_consistent tm0" "forward_inv tm0" "forward_exact tm0" "active_nonempty tm0"
  using constructor_fresh [OF assms]
  by (simp_all add: active_consistent_def forward_inv_def forward_exact_def active_nonempty_def)

lemma updates_consistent:
  assumes "Timeline_updates calls tm = Inr (tm', evs)" "active_consistent tm"
  shows "active_consistent tm'"
  using assms(1,2)
  by (rule Timeline_updates_invariant) (rule update_consistent)

lemma update_active_inside:
  assumes "Timeline_update t f tm = Inr (tm', ev)" "active_consistent tm"
    "has_key (activeElements tm') k"
  shows "inside t tm k"
proof -
  from assms(1,2) obtain c m where
    "\<And>k. has_key (activeElements tm') k \<longleftrightarrow>
       (has_key (activeElements tm) k \<or> (visited f c m k \<and> builds t tm k))
       \<and> inside t tm k"
    unfolding inside_def by (rule update_closed_form) simp
  with assms(3) show ?thesis by simp
qed

lemma update_nonempty:
  assumes "Timeline_update t f tm = Inr (tm', ev)" "active_consistent tm"
  shows "active_nonempty tm'"
  unfolding active_nonempty_def
proof (intro allI impI)
  fix k assume "has_key (activeElements tm') k"
  from update_active_inside [OF assms this] update_fields(1) [OF assms(1)]
  show "\<exists>e. element_at (elements tm') k = Some e \<and> startTimeMs e < endTimeMs e"
    by (auto simp: inside_def in_window_def)
qed

lemma updates_nonempty:
  assumes "Timeline_updates calls tm = Inr (tm', evs)" "active_consistent tm" "active_nonempty tm"
  shows "active_nonempty tm'"
proof -
  have "active_consistent tm' \<and> active_nonempty tm'"
    using assms(1)
  proof (rule Timeline_updates_invariant)
    show "active_consistent tm \<and> active_nonempty tm" using assms(2,3) by simp
  next
    fix t f a b ev
    assume "active_consistent a \<and> active_nonempty a" "Timeline_update t f a = Inr (b, ev)"
    then show "active_consistent b \<and> active_nonempty b"
      using update_consistent update_nonempty by blast
  qed
  then show ?thesis by simp
qed

subsection \<open>The engine over any search\<close>

text \<open>With the search modelled from the specification the engine is the one defined first.\<close>

lemma setInitialElementIndex_with_findIndex:
  "setInitialElementIndex_with findIndex t f tm = setInitialElementIndex t f tm"
  by (simp add: setInitialElementIndex_with_def setInitialElementIndex_def)

lemma Timeline_update_with_findIndex:
  "Timeline_update_with findIndex t f tm = Timeline_update t f tm"
  by (simp add: Timeline_update_with_def Timeline_update_def
      setInitialElementIndex_with_findIndex)

lemma Timeline_updates_with_findIndex:
  "Timeline_updates_with findIndex calls tm = Timeline_updates calls tm"
proof (induction calls arbitrary: tm)
  case Nil
  show ?case by simp
next
  case (Cons call calls)
  obtain t f where call: "call = (t, f)" by (cases call)
  show ?case
    by (simp add: call Timeline_update_with_findIndex Cons.IH split: sum.splits)
qed














subsection \<open>Forward playback\<close>







section \<open>The claims\<close>

subsection \<open>Totality of update\<close>

lemma Timeline_update_total: "\<exists>r. Timeline_update t f tm = Inr r"
proof -
  define tl0 where "tl0 = (case nextElementIndex tm of
       None \<Rightarrow> tm\<lparr>nextElementIndex := Some (if f then 0 else int (length (elements tm)) - 1)\<rparr>
     | Some i \<Rightarrow> tm)"
  have "\<exists>c. nextElementIndex tl0 = Some c"
    by (cases "nextElementIndex tm") (simp_all add: tl0_def)
  then obtain c where "nextElementIndex tl0 = Some c" by blast
  from setInitialElementIndex_cursor [OF this, of t f]
  obtain i where i: "nextElementIndex (setInitialElementIndex t f tl0) = Some i"
    "if f then 0 \<le> i else i < int (length (elements (setInitialElementIndex t f tl0)))"
    by auto
  from scan_total [OF i] obtain r where "scan t f (setInitialElementIndex t f tl0) = Inr r"
    by blast
  then show ?thesis
    by (cases r) (simp add: Timeline_update_def tl0_def [symmetric] split: prod.splits)
qed

text \<open>
  Claim C9. For every timeline state, every time and either direction, \<open>update\<close> does not
  raise: it returns a new state and its effects. Every array read of the model that is out
  of range is a \<open>TypeError\<close> branch, so the result \<open>Inr\<close> says that no such read
  happens, also for an empty descriptor array and for a backward scan without an index.
\<close>

theorem update_never_fails:
  "\<exists>tm' ev. Timeline_update timeMs forward tm = Inr (tm', ev)"
  using Timeline_update_total [of timeMs forward tm] by auto

theorem update_never_fails_witness:
  "(\<exists>tm' ev. Timeline_update 300 False (timeline_of [] True) = Inr (tm', ev))
   \<and> (\<exists>tm' ev. Timeline_update 300 False scenario_timeline = Inr (tm', ev))"
  using update_never_fails [of 300 False "timeline_of [] True"]
    update_never_fails [of 300 False scenario_timeline]
  by simp

subsection \<open>Construction\<close>

text \<open>
  Claim C7, as stated: a collection with a descriptor whose \<open>endTime\<close> is below its
  \<open>startTime\<close> makes the constructor fail. It does not: the constructor returns the
  timeline, with the malformed descriptor in its array.
\<close>

theorem malformed_descriptor_is_accepted:
  "endTimeMs (descriptor 900 400 ''M'') < startTimeMs (descriptor 900 400 ''M'')
   \<and> Timeline_constructor malformed_options
       = Inr (timeline_of [descriptor 0 1000 ''A'', descriptor 900 400 ''M''] False)"
  by (simp add: Timeline_constructor_def malformed_options_def timeline_of_def descriptor_def)

text \<open>
  Claim C7, amended. The constructor validates nothing: for every collection of
  descriptors it succeeds, and the array it stores holds exactly the given descriptors,
  sorted by start time.
\<close>

theorem constructor_never_fails:
  "\<exists>tm. Timeline_constructor options = Inr tm
        \<and> set (elements tm) = set (opt_elements options)
        \<and> length (elements tm) = length (opt_elements options)
        \<and> sorted (map startTimeMs (elements tm))"
  by (simp add: Timeline_constructor_def)

theorem constructor_never_fails_witness:
  "\<exists>tm. Timeline_constructor malformed_options = Inr tm
        \<and> descriptor 900 400 ''M'' \<in> set (elements tm)"
  using constructor_never_fails [of malformed_options]
  by (auto simp: malformed_options_def)

subsection \<open>Skip-bypass\<close>

text \<open>
  Claim C4. On a timeline with element-skipping enabled, a call \<open>update(T)\<close> in either
  direction invokes neither \<open>build\<close> nor the \<open>createElement\<close> hook for a descriptor whose
  \<open>endTime\<close> is at most \<open>T\<close>, whatever the state before the call and however many such
  descriptors the call passes.
\<close>

theorem elapsed_descriptors_are_not_built:
  assumes "allowSkippingElements tm"
    and "Timeline_update T forward tm = Inr (tm', ev)"
    and "element_at (elements tm) k = Some e"
    and "endTimeMs e \<le> T"
  shows "Build k \<notin> set ev \<and> CreateElement k T \<notin> set ev"
  using update_build_skipping [OF assms(2) assms(1), of k T] assms(3,4) by auto

theorem elapsed_descriptors_are_not_built_witness:
  "allowSkippingElements overlap_timeline
   \<and> Timeline_update 250 True overlap_timeline
       = Inr (overlap_timeline\<lparr>
                activeElements := [(0, \<lparr> startTimeMs = 0, endTimeMs = 10000, inst = ''X'' \<rparr>)],
                lastTimeMs := Some 250, nextElementIndex := Some 2\<rparr>,
              [Build 0, CreateElement 0 250, UpdateElement 0 250])
   \<and> element_at (elements overlap_timeline) 1 = Some (descriptor 100 200 ''Y'')
   \<and> endTimeMs (descriptor 100 200 ''Y'') \<le> 250
   \<and> Build 1 \<notin> set [Build 0, CreateElement 0 250, UpdateElement 0 250]
   \<and> CreateElement 1 250 \<notin> set [Build 0, CreateElement 0 250, UpdateElement 0 250]"
proof -
  have h1: "allowSkippingElements overlap_timeline"
    by (simp add: overlap_timeline_def timeline_of_def)
  have h2: "Timeline_update 250 True overlap_timeline
       = Inr (overlap_timeline\<lparr>
                activeElements := [(0, \<lparr> startTimeMs = 0, endTimeMs = 10000, inst = ''X'' \<rparr>)],
                lastTimeMs := Some 250, nextElementIndex := Some 2\<rparr>,
              [Build 0, CreateElement 0 250, UpdateElement 0 250])"
    by (simp add: overlap_timeline_def overlap_elements_def timeline_eval)
  have h3: "element_at (elements overlap_timeline) 1 = Some (descriptor 100 200 ''Y'')"
    by (simp add: overlap_timeline_def overlap_elements_def timeline_of_def element_at_def)
  have h4: "endTimeMs (descriptor 100 200 ''Y'') \<le> 250"
    by (simp add: descriptor_def)
  from elapsed_descriptors_are_not_built [OF h1 h2 h3 h4] h1 h2 h3 h4 show ?thesis
    by simp
qed

text \<open>
  Claim C10. On a timeline with element-skipping enabled, an \<open>update\<close> call invokes
  neither \<open>build\<close> nor the \<open>createElement\<close> hook for an index that is in the active set
  when the call starts, also when the cursor has been moved back behind it. Within one
  call no index is built twice, and the keys of the active set stay pairwise distinct, so
  a key never has two instances.
\<close>

theorem active_entries_are_not_rebuilt:
  assumes "allowSkippingElements tm"
    and "Timeline_update T forward tm = Inr (tm', ev)"
    and "has_key (activeElements tm) k"
  shows "Build k \<notin> set ev \<and> CreateElement k T \<notin> set ev
     \<and> (\<forall>j. count_list ev (Build j) \<le> 1)
     \<and> (distinct (map fst (activeElements tm)) \<longrightarrow> distinct (map fst (activeElements tm')))"
  using update_build_skipping [OF assms(2) assms(1), of k T] assms(3)
    update_build_count(1) [OF assms(2)] update_distinct [OF assms(2)]
  by auto

theorem active_entries_are_not_rebuilt_witness:
  "allowSkippingElements overlap_timeline_250
   \<and> Timeline_update 450 True overlap_timeline_250
       = Inr (overlap_timeline_250\<lparr>lastTimeMs := Some 450, nextElementIndex := Some 3\<rparr>,
              [UpdateElement 0 450])
   \<and> has_key (activeElements overlap_timeline_250) 0
   \<and> Build 0 \<notin> set [UpdateElement 0 450]"
proof -
  have h1: "allowSkippingElements overlap_timeline_250"
    by (simp add: overlap_timeline_250_def overlap_timeline_def timeline_of_def)
  have h2: "Timeline_update 450 True overlap_timeline_250
       = Inr (overlap_timeline_250\<lparr>lastTimeMs := Some 450, nextElementIndex := Some 3\<rparr>,
              [UpdateElement 0 450])"
    by (simp add: overlap_timeline_250_def overlap_timeline_def overlap_elements_def
        timeline_eval)
  have h3: "has_key (activeElements overlap_timeline_250) 0"
    by (simp add: overlap_timeline_250_def has_key_def)
  from active_entries_are_not_rebuilt [OF h1 h2 h3] h1 h2 h3 show ?thesis
    by simp
qed

subsection \<open>Cursor resynchronisation\<close>

text \<open>
  Claim C8. When the cursor is stale, \<open>setInitialElementIndex\<close> sets it to the first index
  whose descriptor satisfies the predicate of the direction (forward \<open>time < endTime\<close>,
  backward \<open>time > startTime\<close>). When no descriptor satisfies it, the forward cursor is
  0 and the backward cursor is \<open>-1\<close>, and the backward scan then stops at once: it
  changes nothing and builds nothing.
\<close>

theorem stale_cursor_is_searched:
  assumes "cursorIsStale T forward tm"
  shows "\<exists>c. nextElementIndex (setInitialElementIndex T forward tm) = Some c \<and>
     (if \<exists>e\<in>set (elements tm). searchPredicate T forward e
      then 0 \<le> c \<and> c < int (length (elements tm))
         \<and> searchPredicate T forward (elements tm ! nat c)
         \<and> (\<forall>j<nat c. \<not> searchPredicate T forward (elements tm ! j))
      else if forward then c = 0
      else c = - 1
         \<and> scan T forward (setInitialElementIndex T forward tm)
             = Inr (setInitialElementIndex T forward tm, []))"
proof (cases "\<exists>e\<in>set (elements tm). searchPredicate T forward e")
  case True
  then have ex: "list_ex (searchPredicate T forward) (elements tm)"
    by (simp add: list_ex_iff)
  then have nn: "0 \<le> findIndex (elements tm) (searchPredicate T forward)"
    by (simp add: findIndex_def)
  from findIndex_found(2,3) [OF nn] findIndex_range [of "elements tm" "searchPredicate T forward"]
    nn True assms
  show ?thesis
    by (cases forward) (simp_all add: setInitialElementIndex_eq searchedIndex_eq)
next
  case False
  then have nf: "findIndex (elements tm) (searchPredicate T forward) = - 1"
    by (simp add: findIndex_def list_ex_iff)
  show ?thesis
  proof (cases forward)
    case True
    with False nf assms show ?thesis
      by (simp add: setInitialElementIndex_eq searchedIndex_eq)
  next
    case fw: False
    have c: "nextElementIndex (setInitialElementIndex T forward tm) = Some (- 1)"
      using fw nf assms by (simp add: setInitialElementIndex_eq searchedIndex_eq)
    then have "shouldAddNextElement T forward (setInitialElementIndex T forward tm) = Inr False"
      using fw by (simp add: shouldAddNextElement_def)
    from scan_stop [OF this] c False fw show ?thesis by simp
  qed
qed

theorem stale_cursor_is_searched_witness:
  "cursorIsStale (- 5) False (withCursor False scenario_timeline)
   \<and> nextElementIndex (setInitialElementIndex (- 5) False (withCursor False scenario_timeline))
       = Some (- 1)
   \<and> cursorIsStale 1200 True (withCursor True scenario_timeline)
   \<and> nextElementIndex (setInitialElementIndex 1200 True (withCursor True scenario_timeline))
       = Some 1"
proof -
  have h1: "cursorIsStale (- 5) False (withCursor False scenario_timeline)"
    by (simp add: cursorIsStale_def withCursor_def scenario_timeline_def timeline_of_def
        element_at_def descriptor_def)
  have h2: "cursorIsStale 1200 True (withCursor True scenario_timeline)"
    by (simp add: cursorIsStale_def withCursor_def scenario_timeline_def timeline_of_def
        element_at_def descriptor_def)
  from stale_cursor_is_searched [OF h1] stale_cursor_is_searched [OF h2] h1 h2
  show ?thesis
    by (simp add: withCursor_def scenario_timeline_def timeline_eval)
qed

subsection \<open>Zero-duration descriptors\<close>

lemma zero_duration_update:
  assumes upd: "Timeline_update T forward tm = Inr (tm', ev)"
    and con: "active_consistent tm" and ne: "active_nonempty tm"
    and e: "element_at (elements tm) k = Some e" and z: "startTimeMs e = endTimeMs e"
    and c: "nextElementIndex (setInitialElementIndex T forward (withCursor forward tm)) = Some c"
    and m: "nextElementIndex tm' = Some m"
  shows "count_list ev (Build k)
       = (if visited forward c m k \<and> (\<not> allowSkippingElements tm \<or> \<not> forward) then 1 else 0)"
    and "count_list ev (CreateElement k T)
       = (if createElement tm then count_list ev (Build k) else 0)"
    and "count_list ev (DestroyElement k T)
       = (if destroyElement tm then count_list ev (Build k) else 0)"
    and "UpdateElement k t' \<notin> set ev"
    and "\<not> has_key (activeElements tm') k"
proof -
  from upd con obtain c' m' where
    c': "nextElementIndex (setInitialElementIndex T forward (withCursor forward tm)) = Some c'"
    and m': "nextElementIndex tm' = Some m'"
    and vis: "\<And>k. visited forward c' m' k \<Longrightarrow>
       \<exists>e. element_at (elements tm) k = Some e
          \<and> (if forward then startTimeMs e < T else T < endTimeMs e)"
    and hk: "\<And>k. has_key (activeElements tm') k \<longleftrightarrow>
       (has_key (activeElements tm) k \<or> (visited forward c' m' k \<and> builds T tm k))
       \<and> inside T tm k"
    and cb: "\<And>k. count_list ev (Build k)
       = (if visited forward c' m' k \<and> builds T tm k then 1 else 0)"
    and cc: "\<And>k t'. count_list ev (CreateElement k t')
       = (if createElement tm \<and> t' = T \<and> visited forward c' m' k \<and> builds T tm k
          then 1 else 0)"
    and cd: "\<And>k t'. count_list ev (DestroyElement k t')
       = (if destroyElement tm \<and> t' = T
             \<and> (has_key (activeElements tm) k \<or> (visited forward c' m' k \<and> builds T tm k))
             \<and> \<not> inside T tm k
          then 1 else 0)"
    and cu: "\<And>k t'. count_list ev (UpdateElement k t')
       = (if updateElement tm \<and> t' = T
             \<and> (has_key (activeElements tm) k \<or> (visited forward c' m' k \<and> builds T tm k))
             \<and> inside T tm k
          then 1 else 0)"
    unfolding inside_def by (rule update_closed_form) simp
  from c c' m m' have cm: "c' = c" "m' = m" by simp_all
  from e z have out: "\<not> inside T tm k"
    by (auto simp: inside_def in_window_def)
  from ne e z have na: "\<not> has_key (activeElements tm) k"
    by (auto simp: active_nonempty_def)
  have b: "builds T tm k \<longleftrightarrow> \<not> allowSkippingElements tm \<or> \<not> forward"
    if "visited forward c m k"
  proof -
    from vis [of k] that cm e have "if forward then startTimeMs e < T else T < endTimeMs e"
      by auto
    with e z na show ?thesis by (auto simp: builds_def split: if_splits)
  qed
  show 1: "count_list ev (Build k)
       = (if visited forward c m k \<and> (\<not> allowSkippingElements tm \<or> \<not> forward) then 1 else 0)"
    using b by (auto simp: cb cm)
  show "count_list ev (CreateElement k T)
       = (if createElement tm then count_list ev (Build k) else 0)"
    by (simp add: cc cb)
  show "count_list ev (DestroyElement k T)
       = (if destroyElement tm then count_list ev (Build k) else 0)"
    using out na by (simp add: cd cb)
  have "count_list ev (UpdateElement k t') = 0" using out by (simp add: cu)
  then show "UpdateElement k t' \<notin> set ev" by (simp add: count_list_0_iff)
  show "\<not> has_key (activeElements tm') k" using out by (simp add: hk)
qed

text \<open>
  Claim C6, as stated: every crossing of the boundary of a descriptor with
  \<open>startTime = endTime\<close> activates and destroys it within the call. On a timeline with
  element-skipping enabled it does not: the calls \<open>update(50)\<close> and \<open>update(200)\<close>
  cross \<open>Z [100, 100)\<close>, and the second call neither builds nor destroys it.
\<close>

theorem zero_duration_crossing_without_activation:
  "startTimeMs (descriptor 100 100 ''Z'') = endTimeMs (descriptor 100 100 ''Z'')
   \<and> Timeline_constructor
        \<lparr> opt_elements = zero_elements, opt_createElement = True, opt_updateElement = True,
          opt_destroyElement = True, opt_allowSkippingElements = Some True \<rparr>
       = Inr (timeline_of zero_elements True)
   \<and> Timeline_updates [(50, True), (200, True)] (timeline_of zero_elements True)
       = Inr ((timeline_of zero_elements True)\<lparr>
                activeElements := [(0, \<lparr> startTimeMs = 0, endTimeMs = 1000, inst = ''X'' \<rparr>)],
                lastTimeMs := Some 200, nextElementIndex := Some 2\<rparr>,
              [[Build 0, CreateElement 0 50, UpdateElement 0 50], [UpdateElement 0 200]])"
  by (simp add: Timeline_constructor_def zero_elements_def timeline_eval)

text \<open>
  Claim C6, amended. Take a timeline reached from its constructor by any calls, and a
  descriptor with \<open>startTime = endTime\<close> at index \<open>k\<close>. An \<open>update\<close> call builds it once
  when its scan passes over \<open>k\<close> (the scan starts at the cursor \<open>c\<close> that
  \<open>setInitialElementIndex\<close> leaves and ends at \<open>m\<close>) and skip-bypass does not apply
  (skipping is disabled, or the direction is backward); otherwise it does not build it, so
  a forward call with skipping enabled never does. Every build comes with one call of the
  \<open>createElement\<close> hook and one call of the \<open>destroyElement\<close> hook in the same call
  (for the hooks that are installed), the \<open>updateElement\<close> hook is never called for it,
  and it is never in the active set after the call.
\<close>

theorem zero_duration_descriptor:
  assumes "Timeline_constructor options = Inr tm0"
    and "Timeline_updates calls tm0 = Inr (tm, evs)"
    and "Timeline_update T forward tm = Inr (tm', ev)"
    and "element_at (elements tm) k = Some e" and "startTimeMs e = endTimeMs e"
    and "nextElementIndex (setInitialElementIndex T forward (withCursor forward tm)) = Some c"
    and "nextElementIndex tm' = Some m"
  shows "count_list ev (Build k)
       = (if visited forward c m k \<and> (\<not> allowSkippingElements tm \<or> \<not> forward) then 1 else 0)
     \<and> count_list ev (CreateElement k T) = (if createElement tm then count_list ev (Build k) else 0)
     \<and> count_list ev (DestroyElement k T) = (if destroyElement tm then count_list ev (Build k) else 0)
     \<and> (\<forall>t'. UpdateElement k t' \<notin> set ev)
     \<and> \<not> has_key (activeElements tm') k"
proof -
  note inv = constructor_invariants [OF assms(1)]
  have con: "active_consistent tm" by (rule updates_consistent [OF assms(2) inv(1)])
  have ne: "active_nonempty tm" by (rule updates_nonempty [OF assms(2) inv(1) inv(4)])
  from zero_duration_update [OF assms(3) con ne assms(4-7)] show ?thesis by blast
qed

theorem zero_duration_descriptor_witness:
  "Timeline_constructor
     \<lparr> opt_elements = zero_elements, opt_createElement = True, opt_updateElement = True,
       opt_destroyElement = True, opt_allowSkippingElements = None \<rparr>
     = Inr (timeline_of zero_elements False)
   \<and> Timeline_updates [(50, True)] (timeline_of zero_elements False)
       = Inr ((timeline_of zero_elements False)\<lparr>
                activeElements := [(0, \<lparr> startTimeMs = 0, endTimeMs = 1000, inst = ''X'' \<rparr>)],
                lastTimeMs := Some 50, nextElementIndex := Some 1\<rparr>,
              [[Build 0, CreateElement 0 50, UpdateElement 0 50]])
   \<and> Timeline_update 200 True
        ((timeline_of zero_elements False)\<lparr>
           activeElements := [(0, \<lparr> startTimeMs = 0, endTimeMs = 1000, inst = ''X'' \<rparr>)],
           lastTimeMs := Some 50, nextElementIndex := Some 1\<rparr>)
       = Inr ((timeline_of zero_elements False)\<lparr>
                activeElements := [(0, \<lparr> startTimeMs = 0, endTimeMs = 1000, inst = ''X'' \<rparr>)],
                lastTimeMs := Some 200, nextElementIndex := Some 2\<rparr>,
              [Build 0, CreateElement 0 200, Build 1, CreateElement 1 200,
               UpdateElement 0 200, DestroyElement 1 200])
   \<and> count_list [Build 0, CreateElement 0 200, Build 1, CreateElement 1 200,
                  UpdateElement 0 200, DestroyElement 1 200] (Build 1) = 1
   \<and> count_list [Build 0, CreateElement 0 200, Build 1, CreateElement 1 200,
                  UpdateElement 0 200, DestroyElement 1 200] (DestroyElement 1 200) = 1"
proof -
  let ?fresh = "timeline_of zero_elements False"
  let ?before = "?fresh\<lparr>
           activeElements := [(0, \<lparr> startTimeMs = 0, endTimeMs = 1000, inst = ''X'' \<rparr>)],
           lastTimeMs := Some 50, nextElementIndex := Some 1\<rparr>"
  let ?after = "?fresh\<lparr>
           activeElements := [(0, \<lparr> startTimeMs = 0, endTimeMs = 1000, inst = ''X'' \<rparr>)],
           lastTimeMs := Some 200, nextElementIndex := Some 2\<rparr>"
  let ?ev = "[Build 0, CreateElement 0 200, Build 1, CreateElement 1 200,
              UpdateElement 0 200, DestroyElement 1 200]"
  have h1: "Timeline_constructor
     \<lparr> opt_elements = zero_elements, opt_createElement = True, opt_updateElement = True,
       opt_destroyElement = True, opt_allowSkippingElements = None \<rparr> = Inr ?fresh"
    by (simp add: Timeline_constructor_def zero_elements_def timeline_eval)
  have h2: "Timeline_updates [(50, True)] ?fresh
       = Inr (?before, [[Build 0, CreateElement 0 50, UpdateElement 0 50]])"
    by (simp add: zero_elements_def timeline_eval)
  have h3: "Timeline_update 200 True ?before = Inr (?after, ?ev)"
    by (simp add: zero_elements_def timeline_eval)
  have h4: "element_at (elements ?before) 1 = Some (descriptor 100 100 ''Z'')"
    by (simp add: zero_elements_def timeline_of_def element_at_def)
  have h5: "startTimeMs (descriptor 100 100 ''Z'') = endTimeMs (descriptor 100 100 ''Z'')"
    by (simp add: descriptor_def)
  have h6: "nextElementIndex (setInitialElementIndex 200 True (withCursor True ?before)) = Some 0"
    by (simp add: withCursor_def zero_elements_def timeline_eval)
  have h7: "nextElementIndex ?after = Some 2" by simp
  from zero_duration_descriptor [OF h1 h2 h3 h4 h5 h6 h7] h1 h2 h3
  show ?thesis by (simp add: visited_def timeline_of_def)
qed

subsection \<open>Containment of the active set\<close>




subsection \<open>Forward playback: activation and deactivation\<close>







subsection \<open>The audio layer: seek\<close>

lemmas audio_eval =
  AudioObjectTimeline_constructor_def AudioObjectTimeline_update_def
  AudioObjectTimeline_seek_def Timeline_constructor_def seekElement_def
  sample_descriptor_def voice_of_def

text \<open>
  What \<open>seek\<close> does for one voice, for every input: the first call on the handle is a
  \<open>seek\<close> to the recomputed position, whatever the size of the jump; and the voice is
  stopped exactly when it plays and the position is negative or at least
  \<open>sample.startTime + duration\<close>.
\<close>

lemma seekElement_first_call:
  assumes "sound instance = Some howl"
  shows "\<exists>rest. snd (seekElement timeMs lastMs instance)
     = HowlSeek ((timeMs - startTime (sample instance) + (timeMs - lastMs)) / 1000)
         (soundId instance) # rest"
  using assms by (simp add: seekElement_def Let_def)

lemma seekElement_stops_iff:
  assumes "sound instance = Some howl"
  shows "HowlStop (soundId instance) \<in> set (snd (seekElement timeMs lastMs instance))
     \<longleftrightarrow> playing howl
        \<and> (timeMs - startTime (sample instance) + (timeMs - lastMs) < 0
           \<or> startTime (sample instance) + duration howl * 1000
                \<le> timeMs - startTime (sample instance) + (timeMs - lastMs))"
  using assms by (simp add: seekElement_def Let_def)

text \<open>
  Claim C2 does not hold of the code. The sample starts at 0 and lasts ten seconds; the
  layer is updated at 1000 ms, which activates the voice. A \<open>seek(1010)\<close>, a jump of
  10 ms, issues a \<open>seek\<close> command to the handle, where the claim has none; a
  \<open>seek(1100)\<close>, a jump of 100 ms, issues two, where the claim has one.
\<close>

theorem small_step_still_seeks:
  "\<exists>a0 a1 ev.
     AudioObjectTimeline_constructor [sample_descriptor 0 10] = Inr a0
     \<and> AudioObjectTimeline_update 1000 a0 = Inr (a1, ev)
     \<and> snd (AudioObjectTimeline_seek 1010 a1) = [(0, HowlSeek (51 / 50) (Some 7))]
     \<and> snd (AudioObjectTimeline_seek 1100 a1)
         = [(0, HowlSeek (6 / 5) (Some 7)), (0, HowlSeek (6 / 5) (Some 7))]"
  by (simp add: audio_eval timeline_eval)

text \<open>
  Claim C5 does not hold of the code. The sample starts at 5000 ms and lasts one second;
  the layer is updated at 5500 ms, which activates the playing voice. A \<open>seek(5800)\<close>
  computes the relative position \<open>800 + 300 = 1100\<close> ms, past the natural end of the
  sample at 1000 ms, and the voice is not stopped: the code compares the relative
  position with \<open>sample.startTime + duration\<close>, here 6000 ms.
\<close>

theorem voice_past_its_end_keeps_playing:
  "\<exists>a0 a1 ev.
     AudioObjectTimeline_constructor [sample_descriptor 5000 1] = Inr a0
     \<and> AudioObjectTimeline_update 5500 a0 = Inr (a1, ev)
     \<and> snd (AudioObjectTimeline_seek 5800 a1)
         = [(0, HowlSeek (11 / 10) (Some 7)), (0, HowlSeek (11 / 10) (Some 7))]"
  by (simp add: audio_eval timeline_eval)

end
